theory Spec2Isabelle
  imports Main "HOL-Library.Sublist"
begin

section \<open>The word game Ghost (ghost.c): trie dictionary and game loop\<close>

text \<open>
  The program keeps its dictionary in a trie of heap nodes linked by pointers, builds it
  from a word file (\<open>load\<close>), walks it one letter per turn (\<open>main\<close>) and frees it
  (\<open>unload\<close>, \<open>freeNode\<close>). The model keeps the pointers: the heap is a list of cells
  indexed by address, a pointer is \<open>Some\<close> address or \<open>None\<close> for \<open>NULL\<close>, and every
  access through a pointer that C leaves undefined is a \<open>fault\<close> value.
\<close>

subsection \<open>Constants and the C library\<close>

abbreviation CHARS :: nat where "CHARS \<equiv> 26"
abbreviation MAX_LENGTH :: nat where "MAX_LENGTH \<equiv> 45"
abbreviation MIN_LENGTH :: nat where "MIN_LENGTH \<equiv> 3"

abbreviation NL :: char where "NL \<equiv> CHR 0x0A"
abbreviation NUL :: char where "NUL \<equiv> CHR 0x00"

text \<open>\<open>isalpha\<close>, \<open>tolower\<close>, \<open>isspace\<close> and \<open>isdigit\<close> in the "C" locale, the one in
  force since the program never calls \<open>setlocale\<close>.\<close>

definition isupper :: "char \<Rightarrow> bool" where
  "isupper c = (65 \<le> (of_char c :: nat) \<and> (of_char c :: nat) \<le> 90)"

definition islower :: "char \<Rightarrow> bool" where
  "islower c = (97 \<le> (of_char c :: nat) \<and> (of_char c :: nat) \<le> 122)"

definition isalpha :: "char \<Rightarrow> bool" where
  "isalpha c = (isupper c \<or> islower c)"

definition tolower :: "char \<Rightarrow> char" where
  "tolower c = (if isupper c then char_of ((of_char c :: nat) + 32) else c)"

definition isspace :: "char \<Rightarrow> bool" where
  "isspace c = ((of_char c :: nat) = 32 \<or> (9 \<le> (of_char c :: nat) \<and> (of_char c :: nat) \<le> 13))"

definition isdigit :: "char \<Rightarrow> bool" where
  "isdigit c = (48 \<le> (of_char c :: nat) \<and> (of_char c :: nat) \<le> 57)"

text \<open>\<open>int index = c - 'a'\<close>. A byte above 127 is a negative \<open>char\<close> where \<open>char\<close> is signed
  and gives a negative index there, a large one here: outside 0..25 either way.\<close>

definition index_of :: "char \<Rightarrow> int" where
  "index_of c = int (of_char c) - 97"

text \<open>Everything the C standard leaves undefined and the program can run into.\<close>

datatype fault =
    Dangling        \<comment> \<open>a read or write through a pointer to no live node\<close>
  | OutOfBounds     \<comment> \<open>an index into \<open>children\<close> outside 0..25\<close>
  | BufferOverflow  \<comment> \<open>a write to \<open>fragment\<close> past its last element\<close>
  | Unterminated    \<comment> \<open>\<open>%s\<close> on a buffer that holds no terminating zero\<close>
  | InvalidFree     \<comment> \<open>\<open>free\<close> of an address that is not a live allocation\<close>
  | NullDeref       \<comment> \<open>a read through \<open>NULL\<close>\<close>
  | DivByZero       \<comment> \<open>\<open>%\<close> with a zero divisor\<close>
  | IntOverflow     \<comment> \<open>a value \<open>atoi\<close> cannot represent in an \<open>int\<close>\<close>

text \<open>\<open>atoi\<close>: leading white space, an optional sign, then decimal digits up to the first
  character that is not one; whatever follows is ignored, and no digits at all give 0.\<close>

fun digits_val :: "int \<Rightarrow> string \<Rightarrow> int" where
  "digits_val acc [] = acc"
| "digits_val acc (c # cs) =
     (if isdigit c then digits_val (acc * 10 + (int (of_char c) - 48)) cs else acc)"

definition atoi :: "string \<Rightarrow> fault + int" where
  "atoi s =
     (let t = dropWhile isspace s;
          v = (case t of
                 [] \<Rightarrow> 0
               | c # r \<Rightarrow>
                   if c = CHR ''-'' then - digits_val 0 r
                   else if c = CHR ''+'' then digits_val 0 r
                   else digits_val 0 t)
      in if - (2 ^ 31) \<le> v \<and> v < 2 ^ 31 then Inr v else Inl IntOverflow)"

subsection \<open>Nodes and the heap\<close>

type_synonym addr = nat

text \<open>\<open>struct node\<close>: the flag and the 26 child pointers.\<close>

record node =
  is_word :: bool
  children :: "addr option list"

text \<open>A cell is \<open>Some\<close> node while allocated and \<open>None\<close> once freed. \<open>malloc\<close> hands out
  the next unused address, and fails when \<open>lim\<close> nodes exist already: \<open>lim\<close> is the
  number of allocations the run can afford.\<close>

type_synonym heap = "node option list"

definition deref :: "heap \<Rightarrow> addr \<Rightarrow> fault + node" where
  "deref h p =
     (if p < length h then (case h ! p of Some n \<Rightarrow> Inr n | None \<Rightarrow> Inl Dangling)
      else Inl Dangling)"

text \<open>\<open>malloc\<close> together with the initialisation that follows it at both call sites: the
  flag false and every child \<open>NULL\<close>.\<close>

definition empty_node :: node where
  "empty_node = \<lparr>is_word = False, children = replicate CHARS None\<rparr>"

definition alloc_node :: "nat \<Rightarrow> heap \<Rightarrow> (addr \<times> heap) option" where
  "alloc_node lim h =
     (if length h < lim then Some (length h, h @ [Some empty_node]) else None)"

text \<open>\<open>p->children[index]\<close>.\<close>

definition child_at :: "heap \<Rightarrow> addr \<Rightarrow> int \<Rightarrow> fault + addr option" where
  "child_at h p index =
     (case deref h p of
        Inl f \<Rightarrow> Inl f
      | Inr n \<Rightarrow>
          if 0 \<le> index \<and> index < int CHARS \<and> nat index < length (children n)
          then Inr (children n ! nat index)
          else Inl OutOfBounds)"

text \<open>The global \<open>root\<close> and the heap it points into.\<close>

record prog =
  mem :: heap
  root :: "addr option"

definition init :: prog where
  "init = \<lparr>mem = [], root = None\<rparr>"

subsection \<open>load\<close>

text \<open>
  The \<open>while\<close> loop of \<open>load\<close> over the characters \<open>fgetc\<close> delivers. \<open>input\<close> is a
  \<open>char\<close>, so the byte 0xFF compares equal to \<open>EOF\<close> where \<open>char\<close> is signed and ends the
  loop like the end of the file. \<open>r\<close> is \<open>root\<close> and \<open>it\<close> is \<open>iterator\<close>. The result is
  the value \<open>load\<close> returns and the heap it leaves.
\<close>

fun load_loop :: "nat \<Rightarrow> heap \<Rightarrow> addr \<Rightarrow> addr \<Rightarrow> string \<Rightarrow> fault + bool \<times> heap" where
  "load_loop lim h r it [] = Inr (True, h)"
| "load_loop lim h r it (c # cs) =
     (if c = CHR 0xFF then Inr (True, h)
      else if tolower c = NL then
        (case deref h it of
           Inl f \<Rightarrow> Inl f
         | Inr n \<Rightarrow> load_loop lim (h[it := Some (n\<lparr>is_word := True\<rparr>)]) r r cs)
      else
        (case child_at h it (index_of (tolower c)) of
           Inl f \<Rightarrow> Inl f
         | Inr (Some q) \<Rightarrow> load_loop lim h r q cs
         | Inr None \<Rightarrow>
             (case alloc_node lim h of
                None \<Rightarrow> Inr (False, h)
              | Some (new, h1) \<Rightarrow>
                  (case deref h1 it of
                     Inl f \<Rightarrow> Inl f
                   | Inr n \<Rightarrow>
                       load_loop lim
                         (h1[it := Some (n\<lparr>children :=
                                 (children n)[nat (index_of (tolower c)) := Some new]\<rparr>)])
                         r new cs))))"

text \<open>\<open>load\<close>: the dictionary is \<open>None\<close> when \<open>fopen\<close> fails and the file's bytes
  otherwise.\<close>

definition load :: "nat \<Rightarrow> string option \<Rightarrow> prog \<Rightarrow> fault + bool \<times> prog" where
  "load lim dictionary s =
     (case dictionary of
        None \<Rightarrow> Inr (False, s)
      | Some src \<Rightarrow>
          (case alloc_node lim (mem s) of
             None \<Rightarrow> Inr (False, s\<lparr>root := None\<rparr>)
           | Some (r, h) \<Rightarrow>
               (case load_loop lim h r r src of
                  Inl f \<Rightarrow> Inl f
                | Inr (ok, h') \<Rightarrow> Inr (ok, \<lparr>mem = h', root = Some r\<rparr>))))"

subsection \<open>unload and freeNode\<close>

text \<open>\<open>free\<close>, on the heap paired with the list of addresses freed so far. \<open>free(NULL)\<close>
  does nothing; freeing an address that is not live is a fault.\<close>

definition free :: "heap \<times> addr list \<Rightarrow> addr option \<Rightarrow> fault + heap \<times> addr list" where
  "free m q =
     (case q of
        None \<Rightarrow> Inr m
      | Some p \<Rightarrow>
          if p < length (fst m) \<and> fst m ! p \<noteq> None
          then Inr ((fst m)[p := None], snd m @ [p])
          else Inl InvalidFree)"

text \<open>The \<open>for\<close> loop of \<open>freeNode\<close> from index \<open>i\<close> on, for a node \<open>p\<close> that is not
  \<open>NULL\<close>. The recursion follows pointers, so nothing bounds it on a heap with a cycle:
  the result \<open>None\<close> stands for a call that does not return.\<close>

partial_function (option) freeLoop ::
    "heap \<times> addr list \<Rightarrow> addr \<Rightarrow> nat \<Rightarrow> (fault + heap \<times> addr list) option" where
  "freeLoop m p i =
     (if CHARS \<le> i then Some (Inr m)
      else
        (case child_at (fst m) p (int i) of
           Inl f \<Rightarrow> Some (Inl f)
         | Inr None \<Rightarrow> freeLoop m p (i + 1)
         | Inr (Some q) \<Rightarrow>
             Option.bind (freeLoop m q 0) (\<lambda>r.
               case r of
                 Inl f \<Rightarrow> Some (Inl f)
               | Inr m1 \<Rightarrow>
                   (case child_at (fst m1) p (int i) of
                      Inl f \<Rightarrow> Some (Inl f)
                    | Inr c \<Rightarrow>
                        (case free m1 c of
                           Inl f \<Rightarrow> Some (Inl f)
                         | Inr m2 \<Rightarrow> freeLoop m2 p (i + 1))))))"

declare freeLoop.simps [code]

definition freeNode ::
    "heap \<times> addr list \<Rightarrow> addr option \<Rightarrow> (fault + heap \<times> addr list) option" where
  "freeNode m c = (case c of None \<Rightarrow> Some (Inr m) | Some p \<Rightarrow> freeLoop m p 0)"

text \<open>\<open>unload\<close>: the value returned, the program state left (the global \<open>root\<close> keeps
  its now dangling value), and the addresses freed, in order.\<close>

definition unload :: "prog \<Rightarrow> (fault + bool \<times> prog \<times> addr list) option" where
  "unload s =
     Option.bind (freeNode (mem s, []) (root s)) (\<lambda>r.
       case r of
         Inl f \<Rightarrow> Some (Inl f)
       | Inr m1 \<Rightarrow>
           (case free m1 (root s) of
              Inl f \<Rightarrow> Some (Inl f)
            | Inr m2 \<Rightarrow> Some (Inr (True, s\<lparr>mem := fst m2\<rparr>, snd m2))))"

subsection \<open>The game loop of main\<close>

record game =
  curr_player :: int
  letter_count :: nat
  fragment :: string
  letter :: addr

text \<open>\<open>letter->children[index]\<close> for \<open>index = c - 'a'\<close>: the trie's one query.\<close>

definition advance :: "heap \<Rightarrow> addr \<Rightarrow> char \<Rightarrow> fault + addr option" where
  "advance h p c = child_at h p (index_of c)"

text \<open>What \<open>%s\<close> prints of a buffer: the characters before the first zero.\<close>

definition cstring :: "string \<Rightarrow> fault + string" where
  "cstring buf =
     (if NUL \<in> set buf then Inr (takeWhile (\<lambda>c. c \<noteq> NUL) buf) else Inl Unterminated)"

text \<open>One pass through the body of the \<open>while (true)\<close> loop from \<open>c = tolower(c)\<close> on,
  for the alphabetic character \<open>c\<close> the \<open>do\<close> loop has read: \<open>Continue\<close> is the state at
  the next iteration (after \<open>continue\<close> or at the end of the body), \<open>Break\<close> the state
  at \<open>break\<close>.\<close>

datatype step = Continue game | Break game

text \<open>C's \<open>%\<close> on \<open>int\<close>: the remainder of the division that truncates towards zero.\<close>

definition c_rem :: "int \<Rightarrow> int \<Rightarrow> int" where
  "c_rem a b = sgn a * (\<bar>a\<bar> mod \<bar>b\<bar>)"

definition turn :: "heap \<Rightarrow> int \<Rightarrow> game \<Rightarrow> char \<Rightarrow> fault + step" where
  "turn h N g c =
     (case advance h (letter g) (tolower c) of
        Inl f \<Rightarrow> Inl f
      | Inr None \<Rightarrow> Inr (Continue g)
      | Inr (Some q) \<Rightarrow>
          if letter_count g < MAX_LENGTH then
            (let g1 = g\<lparr>fragment := (fragment g)[letter_count g := tolower c], letter := q\<rparr>
             in case deref h q of
                  Inl f \<Rightarrow> Inl f
                | Inr n \<Rightarrow>
                    if is_word n \<and> MIN_LENGTH \<le> letter_count g then Inr (Break g1)
                    else if N = 0 then Inl DivByZero
                    else Inr (Continue (g1\<lparr>curr_player := c_rem (curr_player g) N + 1,
                                            letter_count := letter_count g + 1\<rparr>)))
          else Inl BufferOverflow)"

text \<open>The game on the characters the successive reads deliver (one element of \<open>inp\<close> is
  the value of \<open>c\<close> after one pass through the body of the \<open>do\<close> loop). \<open>Awaiting\<close> is
  the state in which the program waits for a read the list does not hold; \<open>GameOver\<close>
  carries the loser and the word the program announces after the loop.\<close>

datatype outcome = Awaiting game | GameOver int string

function play :: "heap \<Rightarrow> int \<Rightarrow> game \<Rightarrow> string \<Rightarrow> fault + outcome" where
  "play h N g inp =
     (case cstring (fragment g) of
        Inl f \<Rightarrow> Inl f
      | Inr shown \<Rightarrow>
          (case dropWhile (\<lambda>c. \<not> isalpha c) inp of
             [] \<Rightarrow> Inr (Awaiting g)
           | c # rest \<Rightarrow>
               (case turn h N g c of
                  Inl f \<Rightarrow> Inl f
                | Inr (Continue g') \<Rightarrow> play h N g' rest
                | Inr (Break g') \<Rightarrow>
                    (case cstring (fragment g') of
                       Inl f \<Rightarrow> Inl f
                     | Inr w \<Rightarrow> Inr (GameOver (curr_player g') w)))))"
  by pat_completeness auto
termination
proof (relation "measure (\<lambda>(h, N, g, inp). length inp)")
  show "wf (measure (\<lambda>(h, N, g, inp). length inp))"
    by simp
next
  fix h :: heap and N :: int and g g' :: game and inp rest :: string and c :: char
  assume "dropWhile (\<lambda>c. \<not> isalpha c) inp = c # rest"
  then have "length (c # rest) \<le> length inp"
    by (metis length_dropWhile_le)
  then show "((h, N, g', rest), (h, N, g, inp)) \<in> measure (\<lambda>(h, N, g, inp). length inp)"
    by simp
qed

text \<open>The state \<open>main\<close> enters the loop with: player 1, no letters, the buffer all zero,
  the cursor at the root.\<close>

definition start :: "addr \<Rightarrow> game" where
  "start r = \<lparr>curr_player = 1, letter_count = 0,
              fragment = replicate MAX_LENGTH NUL, letter = r\<rparr>"

text \<open>\<open>main\<close>, on the argument vector (\<open>argc\<close> is its length), the dictionary file, the
  allocation limit and the characters read from the players. \<open>Exit\<close> is the process's
  exit code; \<open>Waiting\<close> is a run still waiting for input. The greeting, the prompts and
  the diagnostics are terminal output only and are left out; what the program announces
  at the end is the \<open>GameOver\<close> value of \<open>play\<close>.\<close>

datatype run = Exit int | Waiting game

text \<open>The end of \<open>main\<close>, on the value \<open>unload\<close> has returned: exit code 4 if it is false,
  \<open>EXIT_SUCCESS\<close> otherwise.\<close>

definition finish :: "bool \<Rightarrow> run" where
  "finish unloaded = (if \<not> unloaded then Exit 4 else Exit 0)"

definition main :: "string list \<Rightarrow> string option \<Rightarrow> nat \<Rightarrow> string \<Rightarrow> (fault + run) option" where
  "main argv dictionary lim inp =
     (if length argv \<noteq> 2 then Some (Inr (Exit 1))
      else
        (case atoi (argv ! 1) of
           Inl f \<Rightarrow> Some (Inl f)
         | Inr N \<Rightarrow>
             if N < 2 then Some (Inr (Exit 2))
             else
               (case load lim dictionary init of
                  Inl f \<Rightarrow> Some (Inl f)
                | Inr (loaded, s) \<Rightarrow>
                    if \<not> loaded then Some (Inr (Exit 3))
                    else
                      (case root s of
                         None \<Rightarrow> Some (Inl NullDeref)
                       | Some r \<Rightarrow>
                           (case play (mem s) N (start r) inp of
                              Inl f \<Rightarrow> Some (Inl f)
                            | Inr (Awaiting g) \<Rightarrow> Some (Inr (Waiting g))
                            | Inr (GameOver p w) \<Rightarrow>
                                Option.bind (unload s) (\<lambda>u.
                                  case u of
                                    Inl f \<Rightarrow> Some (Inl f)
                                  | Inr (unloaded, s', freed) \<Rightarrow>
                                      Some (Inr (finish unloaded))))))))"

subsection \<open>Notions the claims are stated with\<close>

text \<open>Walking a string from a node, one \<open>advance\<close> per character: \<open>Inr None\<close> as soon as
  a child is missing.\<close>

fun walk :: "heap \<Rightarrow> addr \<Rightarrow> string \<Rightarrow> fault + addr option" where
  "walk h p [] = Inr (Some p)"
| "walk h p (c # cs) =
     (case advance h p c of
        Inl f \<Rightarrow> Inl f
      | Inr None \<Rightarrow> Inr None
      | Inr (Some q) \<Rightarrow> walk h q cs)"

text \<open>The words of a source as written: its lines that end in a newline, in file order.
  \<open>acc\<close> holds the characters of the line being read. The loaded words are these
  folded to lower case, as \<open>load\<close> folds every character it reads.\<close>

fun lines_from :: "string \<Rightarrow> string \<Rightarrow> string list" where
  "lines_from acc [] = []"
| "lines_from acc (c # cs) =
     (if c = NL then acc # lines_from [] cs else lines_from (acc @ [c]) cs)"

definition source_words :: "string \<Rightarrow> string list" where
  "source_words src = lines_from [] src"

definition loaded_words :: "string \<Rightarrow> string list" where
  "loaded_words src = map (map tolower) (source_words src)"

text \<open>The characters after the last newline, which no newline turns into a word.\<close>

fun tail_from :: "string \<Rightarrow> string \<Rightarrow> string" where
  "tail_from acc [] = acc"
| "tail_from acc (c # cs) = (if c = NL then tail_from [] cs else tail_from (acc @ [c]) cs)"

text \<open>A word source: alphabetic words, each ended by a newline.\<close>

definition word_chars :: "string \<Rightarrow> bool" where
  "word_chars src = (\<forall>c \<in> set src. isalpha c \<or> c = NL)"

definition word_source :: "string \<Rightarrow> bool" where
  "word_source src = (word_chars src \<and> tail_from [] src = [])"

text \<open>The fragment as a C string: the characters of the buffer before the first zero.\<close>

definition stored :: "game \<Rightarrow> string" where
  "stored g = takeWhile (\<lambda>c. c \<noteq> NUL) (fragment g)"

text \<open>A valid letter that does not end the game: \<open>advance\<close> finds a child for it and the
  loop body runs to its end, leaving the state \<open>g'\<close>.\<close>

definition accepted :: "heap \<Rightarrow> int \<Rightarrow> game \<Rightarrow> char \<Rightarrow> game \<Rightarrow> bool" where
  "accepted h N g c g' \<longleftrightarrow>
     advance h (letter g) (tolower c) \<noteq> Inr None \<and> turn h N g c = Inr (Continue g')"

text \<open>The player the program prompts after the reads \<open>inp\<close>, if it is still prompting.\<close>

definition to_move :: "heap \<Rightarrow> int \<Rightarrow> addr \<Rightarrow> string \<Rightarrow> int option" where
  "to_move h N r inp =
     (case play h N (start r) inp of Inr (Awaiting g) \<Rightarrow> Some (curr_player g) | _ \<Rightarrow> None)"

subsection \<open>Example dictionaries\<close>

definition cat_src :: string where
  "cat_src = ''cat'' @ [NL] @ ''cats'' @ [NL]"

definition cat_prog :: prog where
  "cat_prog = (case load 10 (Some cat_src) init of Inr (ok, s) \<Rightarrow> s | Inl f \<Rightarrow> init)"

text \<open>What \<open>load\<close> leaves of it when the fourth allocation fails.\<close>

definition cat_partial :: prog where
  "cat_partial = (case load 3 (Some cat_src) init of Inr (ok, s) \<Rightarrow> s | Inl f \<Rightarrow> init)"

text \<open>A source whose last line has no newline.\<close>

definition do_src :: string where
  "do_src = ''cat'' @ [NL] @ ''do''"

definition do_prog :: prog where
  "do_prog = (case load 10 (Some do_src) init of Inr (ok, s) \<Rightarrow> s | Inl f \<Rightarrow> init)"




definition ghost_src :: string where
  "ghost_src = ''ghosts'' @ [NL]"

definition ghost_prog :: prog where
  "ghost_prog = (case load 10 (Some ghost_src) init of Inr (ok, s) \<Rightarrow> s | Inl f \<Rightarrow> init)"

subsection \<open>Invariants the proofs use\<close>

text \<open>The letter of child slot \<open>i\<close>: \<open>'a' + i\<close>.\<close>

definition ltr :: "nat \<Rightarrow> char" where
  "ltr i = char_of (97 + i)"

text \<open>The child pointers of the node at \<open>p\<close>.\<close>

definition kids :: "heap \<Rightarrow> addr \<Rightarrow> addr option list" where
  "kids h p = children (the (h ! p))"

text \<open>The heap is a tree with its root at address 0, all of its cells live. \<open>ps\<close> lists, by
  address, the string each node spells from the root: a child in slot \<open>i\<close> spells its
  parent's string followed by letter \<open>i\<close> and was allocated after its parent, an empty slot
  means that no node spells that string, no two nodes spell the same string, and every node
  but the root has a parent.\<close>

definition tree_inv :: "heap \<Rightarrow> string list \<Rightarrow> bool" where
  "tree_inv h ps \<longleftrightarrow>
     length ps = length h \<and> 0 < length h \<and> ps ! 0 = [] \<and> distinct ps \<and>
     (\<forall>p<length h. h ! p \<noteq> None \<and> length (kids h p) = CHARS) \<and>
     (\<forall>p<length h. \<forall>i<CHARS. \<forall>q. kids h p ! i = Some q \<longrightarrow>
          p < q \<and> q < length h \<and> ps ! q = ps ! p @ [ltr i]) \<and>
     (\<forall>p<length h. \<forall>i<CHARS. kids h p ! i = None \<longrightarrow> ps ! p @ [ltr i] \<notin> set ps) \<and>
     (\<forall>q<length h. 0 < q \<longrightarrow> (\<exists>p<q. \<exists>i<CHARS. ps ! q = ps ! p @ [ltr i]))"

text \<open>The words and the unfinished line that the loop of \<open>load\<close> has seen, given the folded
  characters \<open>acc\<close> of the line it is in.\<close>

fun words_from :: "string \<Rightarrow> string \<Rightarrow> string list" where
  "words_from acc [] = []"
| "words_from acc (c # cs) =
     (if c = NL then acc # words_from [] cs else words_from (acc @ [tolower c]) cs)"

fun rest_from :: "string \<Rightarrow> string \<Rightarrow> string" where
  "rest_from acc [] = acc"
| "rest_from acc (c # cs) = (if c = NL then rest_from [] cs else rest_from (acc @ [tolower c]) cs)"

text \<open>The prefixes of the strings of a set.\<close>

definition prefixes :: "string set \<Rightarrow> string set" where
  "prefixes S = {w. \<exists>t\<in>S. prefix w t}"

text \<open>The invariant of the loop of \<open>load\<close>: the heap is a tree whose nodes spell the prefixes
  of the words \<open>ws\<close> read so far and of the line \<open>acc\<close> being read, the flagged nodes spell
  the words, and the iterator is at the node that spells \<open>acc\<close>.\<close>

definition load_inv :: "heap \<Rightarrow> string list \<Rightarrow> string list \<Rightarrow> string \<Rightarrow> addr \<Rightarrow> bool" where
  "load_inv h ps ws acc it \<longleftrightarrow>
     tree_inv h ps \<and> set ps = prefixes (set ws \<union> {acc}) \<and>
     (\<forall>p<length h. is_word (the (h ! p)) \<longleftrightarrow> ps ! p \<in> set ws) \<and>
     it < length h \<and> ps ! it = acc"

text \<open>What \<open>load\<close> reads of a file: the bytes before the first 0xFF.\<close>

definition read_part :: "string \<Rightarrow> string" where
  "read_part src = takeWhile (\<lambda>c. c \<noteq> CHR 0xFF) src"

text \<open>The shape of the fragment buffer: the letters typed, then zeros to the end.\<close>

definition buffer_ok :: "game \<Rightarrow> bool" where
  "buffer_ok g \<longleftrightarrow>
     (\<exists>f. NUL \<notin> set f \<and> length f = letter_count g \<and> letter_count g \<le> MAX_LENGTH \<and>
          fragment g = f @ replicate (MAX_LENGTH - letter_count g) NUL)"

text \<open>The invariant of the game loop: the buffer has that shape and the cursor is where the
  walk of the fragment from the root ends.\<close>

definition game_inv :: "heap \<Rightarrow> addr \<Rightarrow> game \<Rightarrow> bool" where
  "game_inv h r g \<longleftrightarrow> buffer_ok g \<and> walk h r (stored g) = Inr (Some (letter g))"

text \<open>The nodes below \<open>p\<close> through the child slots from \<open>i\<close> on, by their paths.\<close>

definition below :: "string list \<Rightarrow> addr \<Rightarrow> nat \<Rightarrow> addr set" where
  "below ps p i = {q. q < length ps \<and> (\<exists>j. i \<le> j \<and> j < CHARS \<and> prefix (ps ! p @ [ltr j]) (ps ! q))}"

section \<open>Proofs\<close>

subsection \<open>Letters and child slots\<close>

lemma of_char_ltr: "i < 26 \<Longrightarrow> (of_char (ltr i) :: nat) = 97 + i"
  by (simp add: ltr_def)

lemma islower_ltr: "i < 26 \<Longrightarrow> islower (ltr i)"
  by (simp add: islower_def of_char_ltr)

lemma ltr_inj: "i < 26 \<Longrightarrow> j < 26 \<Longrightarrow> ltr i = ltr j \<Longrightarrow> i = j"
  by (metis of_char_ltr add_left_cancel)

lemma index_of_ltr: "i < 26 \<Longrightarrow> index_of (ltr i) = int i"
  by (simp add: index_of_def of_char_ltr)

lemma islower_index: "islower c \<Longrightarrow> 0 \<le> index_of c \<and> index_of c < 26"
  by (auto simp: islower_def index_of_def)

lemma islower_slot: "islower c \<Longrightarrow> nat (index_of c) < CHARS \<and> int (nat (index_of c)) = index_of c"
  by (auto simp: islower_def index_of_def)

lemma ltr_index: "islower c \<Longrightarrow> ltr (nat (index_of c)) = c"
  by (auto simp: islower_def index_of_def ltr_def nat_diff_distrib)

lemma islower_iff_ltr: "islower c \<longleftrightarrow> (\<exists>i<26. c = ltr i)"
proof
  assume l: "islower c"
  then have "nat (index_of c) < 26"
    using islower_index [of c] by linarith
  then show "\<exists>i<26. c = ltr i"
    using ltr_index [OF l] by metis
next
  assume "\<exists>i<26. c = ltr i"
  then show "islower c"
    using islower_ltr by blast
qed

lemma tolower_alpha: "isalpha c \<Longrightarrow> islower (tolower c)"
  by (auto simp: isalpha_def isupper_def islower_def tolower_def)

lemma tolower_lower: "islower c \<Longrightarrow> tolower c = c"
  by (auto simp: isupper_def islower_def tolower_def)

lemma tolower_NL: "tolower c = NL \<longleftrightarrow> c = NL"
proof (cases "isupper c")
  case True
  have "(of_char (tolower c) :: nat) = of_char c + 32"
    using True by (simp add: tolower_def isupper_def)
  then have "(of_char (tolower c) :: nat) \<noteq> of_char NL"
    using True by (simp add: isupper_def)
  moreover have "c \<noteq> NL"
    using True by (auto simp: isupper_def)
  ultimately show ?thesis by auto
next
  case False
  then show ?thesis by (simp add: tolower_def)
qed

lemma not_islower_NL: "\<not> islower NL"
  by (simp add: islower_def)

lemma not_isalpha_NL: "\<not> isalpha NL"
  by (simp add: isalpha_def islower_def isupper_def)

lemma not_isalpha_FF: "\<not> isalpha (CHR 0xFF)"
  by (simp add: isalpha_def islower_def isupper_def)

subsection \<open>The trie as a tree\<close>

lemma tree_invD:
  assumes "tree_inv h ps"
  shows "length ps = length h" and "0 < length h" and "ps ! 0 = []" and "distinct ps"
    and "\<And>p. p < length h \<Longrightarrow> h ! p \<noteq> None"
    and "\<And>p. p < length h \<Longrightarrow> length (kids h p) = CHARS"
    and "\<And>p i q. p < length h \<Longrightarrow> i < CHARS \<Longrightarrow> kids h p ! i = Some q \<Longrightarrow>
           p < q \<and> q < length h \<and> ps ! q = ps ! p @ [ltr i]"
    and "\<And>p i. p < length h \<Longrightarrow> i < CHARS \<Longrightarrow> kids h p ! i = None \<Longrightarrow> ps ! p @ [ltr i] \<notin> set ps"
    and "\<And>q. q < length h \<Longrightarrow> 0 < q \<Longrightarrow> \<exists>p<q. \<exists>i<CHARS. ps ! q = ps ! p @ [ltr i]"
  using assms unfolding tree_inv_def by blast+

lemma tree_inv_snoc:
  assumes t: "tree_inv h ps" and m: "w @ [x] \<in> set ps"
  shows "w \<in> set ps" and "islower x"
proof -
  from m obtain q where q: "q < length ps" "ps ! q = w @ [x]"
    by (auto simp: in_set_conv_nth)
  have "q \<noteq> 0" using q tree_invD(3) [OF t] by (cases "q = 0") auto
  then obtain p i where pi: "p < q" "i < CHARS" "ps ! q = ps ! p @ [ltr i]"
    using tree_invD(9) [OF t, of q] q tree_invD(1) [OF t] by auto
  then have "w = ps ! p" "x = ltr i" using q by auto
  then show "w \<in> set ps" "islower x"
    using pi q islower_ltr by auto
qed

lemma tree_inv_prefix:
  assumes t: "tree_inv h ps"
  shows "v @ w \<in> set ps \<Longrightarrow> v \<in> set ps"
proof (induction w rule: rev_induct)
  case Nil
  then show ?case by simp
next
  case (snoc x w)
  then show ?case using tree_inv_snoc(1) [OF t, of "v @ w" x] by simp
qed

lemma tree_inv_letters:
  assumes t: "tree_inv h ps"
  shows "v @ w \<in> set ps \<Longrightarrow> \<forall>c \<in> set w. islower c"
proof (induction w rule: rev_induct)
  case Nil
  then show ?case by simp
next
  case (snoc x w)
  have "islower x" using tree_inv_snoc(2) [OF t, of "v @ w" x] snoc.prems by simp
  moreover have "v @ w \<in> set ps" using tree_inv_snoc(1) [OF t, of "v @ w" x] snoc.prems by simp
  ultimately show ?case using snoc.IH by simp
qed

lemma tree_inv_deref:
  assumes "tree_inv h ps" and "p < length h"
  shows "deref h p = Inr (the (h ! p))"
  using tree_invD(5) [OF assms] assms(2) by (auto simp: deref_def)

lemma tree_inv_child_at:
  assumes "tree_inv h ps" and "p < length h" and "i < CHARS"
  shows "child_at h p (int i) = Inr (kids h p ! i)"
  using tree_inv_deref [OF assms(1,2)] tree_invD(6) [OF assms(1,2)] assms(3)
  by (simp add: child_at_def kids_def)

lemma tree_inv_advance:
  assumes "tree_inv h ps" and "p < length h" and "islower c"
  shows "advance h p c = Inr (kids h p ! nat (index_of c))"
proof -
  have "nat (index_of c) < CHARS" "int (nat (index_of c)) = index_of c"
    using islower_slot [OF assms(3)] by auto
  then show ?thesis
    using tree_inv_child_at [OF assms(1,2), of "nat (index_of c)"] by (simp add: advance_def)
qed

text \<open>Setting the flag of a node changes no pointer.\<close>

lemma tree_inv_set_word:
  assumes t: "tree_inv h ps" and p: "p < length h"
  shows "tree_inv (h[p := Some ((the (h ! p))\<lparr>is_word := True\<rparr>)]) ps"
proof -
  let ?h = "h[p := Some ((the (h ! p))\<lparr>is_word := True\<rparr>)]"
  have l: "length ?h = length h" by simp
  have k: "kids ?h q = kids h q" if "q < length h" for q
    using that by (cases "q = p") (simp_all add: kids_def)
  have n: "?h ! q \<noteq> None" if "q < length h" for q
    using that tree_invD(5) [OF t that] by (cases "q = p") simp_all
  show ?thesis
    unfolding tree_inv_def l
  proof (intro conjI allI impI)
    show "length ps = length h" using tree_invD(1) [OF t] .
    show "0 < length h" using tree_invD(2) [OF t] .
    show "ps ! 0 = []" using tree_invD(3) [OF t] .
    show "distinct ps" using tree_invD(4) [OF t] .
    show "?h ! q \<noteq> None" if "q < length h" for q using n that .
    show "length (kids ?h q) = CHARS" if "q < length h" for q
      using tree_invD(6) [OF t that] k [OF that] by simp
    show "q < r" "r < length h" "ps ! r = ps ! q @ [ltr i]"
      if "q < length h" "i < CHARS" "kids ?h q ! i = Some r" for q i r
      using tree_invD(7) [OF t that(1,2), of r] that(3) k [OF that(1)] by simp_all
    show "ps ! q @ [ltr i] \<notin> set ps" if "q < length h" "i < CHARS" "kids ?h q ! i = None" for q i
      using tree_invD(8) [OF t that(1,2)] that(3) k [OF that(1)] by simp
    show "\<exists>r<q. \<exists>i<CHARS. ps ! q = ps ! r @ [ltr i]" if "q < length h" "0 < q" for q
      using tree_invD(9) [OF t that] .
  qed
qed

text \<open>Linking a fresh node into an empty slot keeps the heap a tree.\<close>

lemma tree_inv_add_child:
  assumes t: "tree_inv h ps" and p: "p < length h" and i: "i < CHARS"
    and e: "kids h p ! i = None"
  shows "tree_inv ((h @ [Some empty_node])
            [p := Some ((the (h ! p))\<lparr>children := (kids h p)[i := Some (length h)]\<rparr>)])
          (ps @ [ps ! p @ [ltr i]])"
proof -
  let ?new = "length h"
  let ?h = "(h @ [Some empty_node])
              [p := Some ((the (h ! p))\<lparr>children := (kids h p)[i := Some ?new]\<rparr>)]"
  let ?w = "ps ! p @ [ltr i]"
  let ?ps = "ps @ [?w]"
  note lp = tree_invD(1) [OF t]
  have l: "length ?h = Suc (length h)" by simp
  have fresh: "?w \<notin> set ps" using tree_invD(8) [OF t p i e] .
  have kn: "kids ?h ?new = replicate CHARS None"
    using p by (simp add: kids_def nth_append empty_node_def)
  have kp: "kids ?h p = (kids h p)[i := Some ?new]"
    using p by (simp add: kids_def)
  have ko: "kids ?h q = kids h q" if "q < length h" "q \<noteq> p" for q
    using that by (simp add: kids_def nth_append)
  have pso: "?ps ! q = ps ! q" if "q < length h" for q
    using that lp by (simp add: nth_append)
  have psn: "?ps ! ?new = ?w"
    using lp by (simp add: nth_append)
  have mem: "ps ! q \<in> set ps" if "q < length h" for q
    using that lp by simp
  show ?thesis
    unfolding tree_inv_def l
  proof (intro conjI allI impI)
    show "length ?ps = Suc (length h)" using lp by simp
    show "0 < Suc (length h)" by simp
    show "?ps ! 0 = []" using tree_invD(2,3) [OF t] pso by simp
    show "distinct ?ps" using tree_invD(4) [OF t] fresh by simp
  next
    fix q assume q: "q < Suc (length h)"
    show "?h ! q \<noteq> None"
      using q tree_invD(5) [OF t, of q] p
      by (cases "q = p") (auto simp: nth_append less_Suc_eq)
    show "length (kids ?h q) = CHARS"
    proof (cases "q = ?new")
      case True then show ?thesis using kn by simp
    next
      case False
      then have "q < length h" using q by simp
      then show ?thesis
        using tree_invD(6) [OF t, of q] kp ko [of q] by (cases "q = p") simp_all
    qed
  next
    fix q j r
    assume q: "q < Suc (length h)" and j: "j < CHARS" and c: "kids ?h q ! j = Some r"
    have qn: "q \<noteq> ?new" using c kn j by auto
    then have ql: "q < length h" using q by simp
    have "q < r \<and> r < Suc (length h) \<and> ?ps ! r = ?ps ! q @ [ltr j]"
    proof (cases "q = p \<and> j = i")
      case True
      then have "r = ?new" using c kp tree_invD(6) [OF t p] i by simp
      then show ?thesis using True p psn pso [OF p] by simp
    next
      case False
      then have "kids h q ! j = Some r"
        using c kp ko [OF ql] by (cases "q = p") simp_all
      then have "q < r \<and> r < length h \<and> ps ! r = ps ! q @ [ltr j]"
        using tree_invD(7) [OF t ql j] by simp
      then show ?thesis using pso ql by simp
    qed
    then show "q < r" "r < Suc (length h)" "?ps ! r = ?ps ! q @ [ltr j]" by simp_all
  next
    fix q j
    assume q: "q < Suc (length h)" and j: "j < CHARS" and c: "kids ?h q ! j = None"
    show "?ps ! q @ [ltr j] \<notin> set ?ps"
    proof (cases "q = ?new")
      case True
      have "?w @ [ltr j] \<notin> set ps"
        using tree_inv_snoc(1) [OF t, of ?w "ltr j"] fresh by blast
      then show ?thesis using True psn by simp
    next
      case False
      then have ql: "q < length h" using q by simp
      have ji: "\<not> (q = p \<and> j = i)"
        using c kp tree_invD(6) [OF t p] i by auto
      then have "kids h q ! j = None"
        using c kp ko [OF ql] by (cases "q = p") simp_all
      then have a: "ps ! q @ [ltr j] \<notin> set ps"
        using tree_invD(8) [OF t ql j] by simp
      have "ps ! q @ [ltr j] \<noteq> ?w"
      proof
        assume "ps ! q @ [ltr j] = ?w"
        then have "ps ! q = ps ! p" "ltr j = ltr i" by simp_all
        then have "q = p" "j = i"
          using tree_invD(4) [OF t] ql p lp ltr_inj [OF j i]
          by (simp_all add: nth_eq_iff_index_eq)
        then show False using ji by simp
      qed
      then show ?thesis using a pso [OF ql] by simp
    qed
  next
    fix q assume q: "q < Suc (length h)" and q0: "0 < q"
    show "\<exists>r<q. \<exists>j<CHARS. ?ps ! q = ?ps ! r @ [ltr j]"
    proof (cases "q = ?new")
      case True
      have "p < q" using True p by simp
      moreover have "?ps ! q = ?ps ! p @ [ltr i]" using True psn pso [OF p] by simp
      ultimately show ?thesis using i by blast
    next
      case False
      then have ql: "q < length h" using q by simp
      then obtain r j where rj: "r < q" "j < CHARS" "ps ! q = ps ! r @ [ltr j]"
        using tree_invD(9) [OF t ql q0] by blast
      then have "?ps ! q = ?ps ! r @ [ltr j]"
        using pso [OF ql] pso [of r] ql by simp
      then show ?thesis using rj(1,2) by blast
    qed
  qed
qed

subsection \<open>The loop of load\<close>

lemma words_from_lines: "words_from (map tolower acc) cs = map (map tolower) (lines_from acc cs)"
  by (induction cs arbitrary: acc) (simp, simp, metis list.simps(8,9) map_append)

lemma rest_from_tail: "rest_from (map tolower acc) cs = map tolower (tail_from acc cs)"
  by (induction cs arbitrary: acc) (simp, simp, metis list.simps(8,9) map_append)

lemma load_invD:
  assumes "load_inv h ps ws acc it"
  shows "tree_inv h ps" and "set ps = prefixes (insert acc (set ws))"
    and "\<And>p. p < length h \<Longrightarrow> is_word (the (h ! p)) \<longleftrightarrow> ps ! p \<in> set ws"
    and "it < length h" and "ps ! it = acc"
  using assms unfolding load_inv_def by simp_all

lemma prefixes_snoc: "prefixes (S \<union> {acc @ [c]}) = prefixes (S \<union> {acc}) \<union> {acc @ [c]}"
  by (auto simp: prefixes_def)

lemma prefixes_done: "prefixes (set (ws @ [acc]) \<union> {[]}) = prefixes (set ws \<union> {acc})"
  by (auto simp: prefixes_def)

lemma prefixes_self: "acc \<in> prefixes (S \<union> {acc})"
  by (auto simp: prefixes_def)

lemma load_inv_newline:
  assumes "load_inv h ps ws acc it"
  shows "load_inv (h[it := Some ((the (h ! it))\<lparr>is_word := True\<rparr>)]) ps (ws @ [acc]) [] 0"
proof -
  let ?h = "h[it := Some ((the (h ! it))\<lparr>is_word := True\<rparr>)]"
  from assms have t: "tree_inv h ps" and s: "set ps = prefixes (set ws \<union> {acc})"
    and w: "\<And>p. p < length h \<Longrightarrow> is_word (the (h ! p)) \<longleftrightarrow> ps ! p \<in> set ws"
    and it: "it < length h" "ps ! it = acc"
    unfolding load_inv_def by blast+
  have "is_word (the (?h ! p)) \<longleftrightarrow> ps ! p \<in> set (ws @ [acc])" if p: "p < length h" for p
  proof (cases "p = it")
    case True
    then show ?thesis using it by simp
  next
    case False
    then have "ps ! p \<noteq> ps ! it"
      using tree_invD(1,4) [OF t] p it(1) by (simp add: nth_eq_iff_index_eq)
    then have "ps ! p \<noteq> acc" using it(2) by simp
    then show ?thesis using False w [OF p] by simp
  qed
  then show ?thesis
    unfolding load_inv_def
    using tree_inv_set_word [OF t it(1)] tree_invD(2,3) [OF t] s prefixes_done by simp
qed

lemma load_inv_existing:
  assumes "load_inv h ps ws acc it" and c: "islower c"
    and k: "kids h it ! nat (index_of c) = Some q"
  shows "load_inv h ps ws (acc @ [c]) q"
proof -
  from assms have t: "tree_inv h ps" and s: "set ps = prefixes (set ws \<union> {acc})"
    and w: "\<forall>p<length h. is_word (the (h ! p)) \<longleftrightarrow> ps ! p \<in> set ws"
    and it: "it < length h" "ps ! it = acc"
    unfolding load_inv_def by blast+
  have i: "nat (index_of c) < CHARS" using islower_slot [OF c] by simp
  have q: "q < length h" "ps ! q = acc @ [c]"
    using tree_invD(7) [OF t it(1) i k] it(2) ltr_index [OF c] by simp_all
  then have "acc @ [c] \<in> set ps"
    using tree_invD(1) [OF t] by (metis nth_mem)
  then have "set ps = prefixes (set ws \<union> {acc @ [c]})"
    using s prefixes_snoc [of "set ws" acc c] by auto
  then show ?thesis
    unfolding load_inv_def using t w q by simp
qed

lemma load_inv_new:
  assumes "load_inv h ps ws acc it" and c: "islower c"
    and k: "kids h it ! nat (index_of c) = None"
  shows "load_inv ((h @ [Some empty_node])
           [it := Some ((the (h ! it))\<lparr>children := (kids h it)[nat (index_of c) := Some (length h)]\<rparr>)])
           (ps @ [acc @ [c]]) ws (acc @ [c]) (length h)"
proof -
  let ?h = "(h @ [Some empty_node])
           [it := Some ((the (h ! it))\<lparr>children := (kids h it)[nat (index_of c) := Some (length h)]\<rparr>)]"
  from assms have t: "tree_inv h ps" and s: "set ps = prefixes (set ws \<union> {acc})"
    and w: "\<And>p. p < length h \<Longrightarrow> is_word (the (h ! p)) \<longleftrightarrow> ps ! p \<in> set ws"
    and it: "it < length h" "ps ! it = acc"
    unfolding load_inv_def by blast+
  note lp = tree_invD(1) [OF t]
  have i: "nat (index_of c) < CHARS" using islower_slot [OF c] by simp
  have t': "tree_inv ?h (ps @ [acc @ [c]])"
    using tree_inv_add_child [OF t it(1) i k] it(2) ltr_index [OF c] by simp
  have fresh: "acc @ [c] \<notin> set ps"
    using tree_invD(8) [OF t it(1) i k] it(2) ltr_index [OF c] by simp
  have "set ws \<subseteq> set ps" using s by (auto simp: prefixes_def)
  then have nw: "acc @ [c] \<notin> set ws" using fresh by blast
  have s': "set (ps @ [acc @ [c]]) = prefixes (set ws \<union> {acc @ [c]})"
    using s prefixes_snoc [of "set ws" acc c] by auto
  have "is_word (the (?h ! p)) \<longleftrightarrow> (ps @ [acc @ [c]]) ! p \<in> set ws" if p: "p < Suc (length h)" for p
  proof (cases "p = length h")
    case True
    then show ?thesis using it(1) nw lp by (simp add: nth_append empty_node_def)
  next
    case False
    then have pl: "p < length h" using p by simp
    then have "is_word (the (?h ! p)) = is_word (the (h ! p))"
      by (cases "p = it") (simp_all add: nth_append)
    then show ?thesis using w [OF pl] pl lp by (simp add: nth_append)
  qed
  then show ?thesis
    unfolding load_inv_def using t' s' lp by (simp add: nth_append)
qed

lemma load_loop_inv:
  assumes "load_inv h ps ws acc it" and "\<forall>c\<in>set cs. isalpha c \<or> c = NL"
  shows "\<exists>ok h'. load_loop lim h 0 it cs = Inr (ok, h') \<and>
           (ok \<longrightarrow> (\<exists>ps' it'. load_inv h' ps' (ws @ words_from acc cs) (rest_from acc cs) it'))"
  using assms
proof (induction cs arbitrary: h ps ws acc it)
  case Nil
  then show ?case by auto
next
  case (Cons c cs)
  from Cons.prems(1) have t: "tree_inv h ps" and it: "it < length h"
    unfolding load_inv_def by blast+
  have cs: "\<forall>c\<in>set cs. isalpha c \<or> c = NL" using Cons.prems(2) by simp
  have nff: "c \<noteq> CHR 0xFF" using Cons.prems(2) not_isalpha_FF by auto
  show ?case
  proof (cases "c = NL")
    case True
    let ?h = "h[it := Some ((the (h ! it))\<lparr>is_word := True\<rparr>)]"
    have "\<exists>ok h'. load_loop lim ?h 0 0 cs = Inr (ok, h') \<and>
           (ok \<longrightarrow> (\<exists>ps' it'. load_inv h' ps' ((ws @ [acc]) @ words_from [] cs) (rest_from [] cs) it'))"
      using Cons.IH [OF load_inv_newline [OF Cons.prems(1)] cs] .
    then show ?thesis
      using True tree_inv_deref [OF t it] by (simp add: tolower_NL)
  next
    case False
    then have a: "isalpha c" using Cons.prems(2) by simp
    have l: "islower (tolower c)" using tolower_alpha [OF a] .
    have n: "tolower c \<noteq> NL" using False tolower_NL by simp
    have i: "nat (index_of (tolower c)) < CHARS" "int (nat (index_of (tolower c))) = index_of (tolower c)"
      using islower_slot [OF l] by simp_all
    have ch: "child_at h it (index_of (tolower c)) = Inr (kids h it ! nat (index_of (tolower c)))"
      using tree_inv_child_at [OF t it i(1)] i(2) by simp
    show ?thesis
    proof (cases "kids h it ! nat (index_of (tolower c))")
      case (Some q)
      show ?thesis
        using Cons.IH [OF load_inv_existing [OF Cons.prems(1) l Some] cs] False nff n ch Some
        by simp
    next
      case None
      show ?thesis
      proof (cases "length h < lim")
        case lt: True
        have d: "deref (h @ [Some empty_node]) it = Inr (the (h ! it))"
          using tree_inv_deref [OF t it] it by (simp add: deref_def nth_append)
        show ?thesis
          using Cons.IH [OF load_inv_new [OF Cons.prems(1) l None] cs] False nff n ch None lt d
          by (simp add: alloc_node_def kids_def)
      next
        case ge: False
        then have "load_loop lim h 0 it (c # cs) = Inr (False, h)"
          using False nff n ch None by (simp add: alloc_node_def)
        then show ?thesis by blast
      qed
    qed
  qed
qed

lemma load_inv_init: "load_inv [Some empty_node] [[]] [] [] 0"
  unfolding load_inv_def tree_inv_def
  by (auto simp: prefixes_def kids_def empty_node_def)

lemma load_Inr:
  assumes "word_chars src"
  shows "\<exists>ok s. load lim (Some src) init = Inr (ok, s)"
proof (cases "0 < lim")
  case True
  obtain ok h' where "load_loop lim [Some empty_node] 0 0 src = Inr (ok, h')"
    using load_loop_inv [OF load_inv_init, of src lim] assms unfolding word_chars_def by blast
  then show ?thesis using True by (simp add: load_def init_def alloc_node_def)
next
  case False
  then have "load lim (Some src) init = Inr (False, init\<lparr>root := None\<rparr>)"
    by (simp add: load_def init_def alloc_node_def)
  then show ?thesis by blast
qed

lemma load_True:
  assumes "word_chars src" and "load lim (Some src) init = Inr (True, s)"
  shows "root s = Some 0 \<and>
         (\<exists>ps it. load_inv (mem s) ps (loaded_words src) (map tolower (tail_from [] src)) it)"
proof (cases "0 < lim")
  case True
  obtain ok h' where l: "load_loop lim [Some empty_node] 0 0 src = Inr (ok, h')"
    and i: "ok \<longrightarrow> (\<exists>ps' it'. load_inv h' ps' ([] @ words_from [] src) (rest_from [] src) it')"
    using load_loop_inv [OF load_inv_init, of src lim] assms(1) unfolding word_chars_def by blast
  have "ok" "s = \<lparr>mem = h', root = Some 0\<rparr>"
    using assms(2) l True by (auto simp: load_def init_def alloc_node_def)
  then show ?thesis
    using i words_from_lines [of "[]" src] rest_from_tail [of "[]" src]
    by (simp add: loaded_words_def source_words_def)
next
  case False
  then show ?thesis using assms(2) by (simp add: load_def init_def alloc_node_def)
qed

subsection \<open>Walking the trie\<close>

lemma advance_Inr_islower:
  assumes "advance h p c = Inr x"
  shows "islower c"
  using assms
  by (auto simp: advance_def child_at_def index_of_def islower_def split: sum.splits if_splits)

lemma walk_append:
  "walk h p (v @ w) =
     (case walk h p v of Inl f \<Rightarrow> Inl f | Inr None \<Rightarrow> Inr None | Inr (Some q) \<Rightarrow> walk h q w)"
  by (induction v arbitrary: p) (auto split: sum.splits option.splits)

lemma walk_Some:
  assumes t: "tree_inv h ps"
  shows "p < length h \<Longrightarrow> walk h p w = Inr (Some q) \<Longrightarrow> q < length h \<and> ps ! q = ps ! p @ w"
proof (induction w arbitrary: p)
  case Nil
  then show ?case by simp
next
  case (Cons c cs)
  from Cons.prems(2) obtain r where a: "advance h p c = Inr (Some r)" and w: "walk h r cs = Inr (Some q)"
    by (auto split: sum.splits option.splits)
  have l: "islower c" using advance_Inr_islower [OF a] .
  have "kids h p ! nat (index_of c) = Some r"
    using tree_inv_advance [OF t Cons.prems(1) l] a by simp
  then have r: "r < length h" "ps ! r = ps ! p @ [c]"
    using tree_invD(7) [OF t Cons.prems(1), of "nat (index_of c)" r] islower_slot [OF l] ltr_index [OF l]
    by simp_all
  show ?case using Cons.IH [OF r(1) w] r(2) by simp
qed

lemma walk_None:
  assumes t: "tree_inv h ps"
  shows "p < length h \<Longrightarrow> \<forall>c\<in>set w. islower c \<Longrightarrow> ps ! p @ w \<notin> set ps \<Longrightarrow>
         walk h p w = Inr None"
proof (induction w arbitrary: p)
  case Nil
  then show ?case using tree_invD(1) [OF t] by simp
next
  case (Cons c cs)
  have l: "islower c" using Cons.prems(2) by simp
  note a = tree_inv_advance [OF t Cons.prems(1) l]
  show ?case
  proof (cases "kids h p ! nat (index_of c)")
    case None
    then show ?thesis using a by simp
  next
    case (Some r)
    then have r: "r < length h" "ps ! r = ps ! p @ [c]"
      using tree_invD(7) [OF t Cons.prems(1), of "nat (index_of c)" r] islower_slot [OF l] ltr_index [OF l]
      by simp_all
    have "walk h r cs = Inr None"
      using Cons.IH [OF r(1)] Cons.prems(2,3) r(2) by simp
    then show ?thesis using a Some by simp
  qed
qed

lemma walk_in:
  assumes t: "tree_inv h ps"
  shows "p < length h \<Longrightarrow> q < length h \<Longrightarrow> ps ! q = ps ! p @ w \<Longrightarrow> walk h p w = Inr (Some q)"
proof (induction w arbitrary: p)
  case Nil
  then have "q = p"
    using tree_invD(1,4) [OF t] by (simp add: nth_eq_iff_index_eq)
  then show ?case by simp
next
  case (Cons c cs)
  have m: "(ps ! p @ [c]) @ cs \<in> set ps"
    using Cons.prems(2,3) tree_invD(1) [OF t] by (metis append.assoc append_Cons append_Nil nth_mem)
  have pc: "ps ! p @ [c] \<in> set ps" using tree_inv_prefix [OF t m] .
  have l: "islower c" using tree_inv_snoc(2) [OF t pc] .
  note a = tree_inv_advance [OF t Cons.prems(1) l]
  show ?case
  proof (cases "kids h p ! nat (index_of c)")
    case None
    then have "ps ! p @ [c] \<notin> set ps"
      using tree_invD(8) [OF t Cons.prems(1), of "nat (index_of c)"] islower_slot [OF l] ltr_index [OF l]
      by simp
    then show ?thesis using pc by simp
  next
    case (Some r)
    then have r: "r < length h" "ps ! r = ps ! p @ [c]"
      using tree_invD(7) [OF t Cons.prems(1), of "nat (index_of c)" r] islower_slot [OF l] ltr_index [OF l]
      by simp_all
    have "walk h r cs = Inr (Some q)"
      using Cons.IH [OF r(1) Cons.prems(2)] Cons.prems(3) r(2) by simp
    then show ?thesis using a Some by simp
  qed
qed

text \<open>Where a walk leaves the trie: the longest prefix of the string that is in it.\<close>

lemma walk_diverges:
  assumes t: "tree_inv h ps"
  shows "p < length h \<Longrightarrow> \<forall>c\<in>set w. islower c \<Longrightarrow> ps ! p @ w \<notin> set ps \<Longrightarrow>
         \<exists>f c rest q. w = f @ c # rest \<and> walk h p f = Inr (Some q) \<and> advance h q c = Inr None"
proof (induction w arbitrary: p)
  case Nil
  then show ?case using tree_invD(1) [OF t] by simp
next
  case (Cons c cs)
  have l: "islower c" using Cons.prems(2) by simp
  note a = tree_inv_advance [OF t Cons.prems(1) l]
  show ?case
  proof (cases "kids h p ! nat (index_of c)")
    case None
    then have "c # cs = [] @ c # cs \<and> walk h p [] = Inr (Some p) \<and> advance h p c = Inr None"
      using a by simp
    then show ?thesis by blast
  next
    case (Some r)
    then have r: "r < length h" "ps ! r = ps ! p @ [c]"
      using tree_invD(7) [OF t Cons.prems(1), of "nat (index_of c)" r] islower_slot [OF l] ltr_index [OF l]
      by simp_all
    obtain f d rest q where "cs = f @ d # rest" "walk h r f = Inr (Some q)" "advance h q d = Inr None"
      using Cons.IH [OF r(1)] Cons.prems(2,3) r(2) by auto
    then have "c # cs = (c # f) @ d # rest \<and> walk h p (c # f) = Inr (Some q) \<and> advance h q d = Inr None"
      using a Some by simp
    then show ?thesis by blast
  qed
qed

subsection \<open>A load that returns true has read words only\<close>

lemma load_loop_read_part:
  "load_loop lim h r it (read_part cs) = load_loop lim h r it cs"
  unfolding read_part_def
proof (induction cs arbitrary: h it)
  case Nil
  then show ?case by simp
next
  case (Cons c cs)
  show ?case
  proof (cases "c = CHR 0xFF")
    case True
    then show ?thesis by simp
  next
    case False
    then show ?thesis
      using Cons.IH
      by (simp split: sum.splits option.splits prod.splits add: alloc_node_def)
  qed
qed

lemma load_read_part: "load lim (Some (read_part src)) s = load lim (Some src) s"
  by (simp add: load_def load_loop_read_part split: option.splits)

lemma read_part_word_chars: "word_chars src \<Longrightarrow> read_part src = src"
  unfolding read_part_def word_chars_def
  using not_isalpha_FF by (intro takeWhile_eq_all_conv [THEN iffD2]) auto

lemma not_word_char_faults:
  assumes t: "tree_inv h ps" and it: "it < length h"
    and c: "\<not> isalpha c" "c \<noteq> NL" "c \<noteq> CHR 0xFF"
  shows "load_loop lim h r it (c # cs) = Inl OutOfBounds"
proof -
  have u: "\<not> isupper c" "\<not> islower c" using c(1) by (simp_all add: isalpha_def)
  then have tl: "tolower c = c" by (simp add: tolower_def)
  have "\<not> (0 \<le> index_of c \<and> index_of c < 26)"
    using u(2) by (auto simp: islower_def index_of_def)
  then have "child_at h it (index_of c) = Inl OutOfBounds"
    using tree_inv_deref [OF t it] by (auto simp: child_at_def)
  then show ?thesis using c tl by simp
qed

lemma load_loop_True_chars:
  assumes "load_inv h ps ws acc it" and "CHR 0xFF \<notin> set cs"
    and "load_loop lim h 0 it cs = Inr (True, h')"
  shows "word_chars cs"
  using assms
proof (induction cs arbitrary: h ps ws acc it)
  case Nil
  then show ?case by (simp add: word_chars_def)
next
  case (Cons c cs)
  note t = load_invD(1) [OF Cons.prems(1)] and it = load_invD(4) [OF Cons.prems(1)]
  have nff: "c \<noteq> CHR 0xFF" "CHR 0xFF \<notin> set cs" using Cons.prems(2) by auto
  have wc: "isalpha c \<or> c = NL"
    using not_word_char_faults [OF t it _ _ nff(1), of lim 0 cs] Cons.prems(3) by auto
  have "word_chars cs"
  proof (cases "c = NL")
    case True
    have "load_loop lim (h[it := Some ((the (h ! it))\<lparr>is_word := True\<rparr>)]) 0 0 cs = Inr (True, h')"
      using Cons.prems(3) True tree_inv_deref [OF t it] by (simp add: tolower_NL)
    then show ?thesis
      using Cons.IH [OF load_inv_newline [OF Cons.prems(1)] nff(2)] by simp
  next
    case False
    then have a: "isalpha c" using wc by simp
    have l: "islower (tolower c)" using tolower_alpha [OF a] .
    have n: "tolower c \<noteq> NL" using False tolower_NL by simp
    have i: "nat (index_of (tolower c)) < CHARS" "int (nat (index_of (tolower c))) = index_of (tolower c)"
      using islower_slot [OF l] by simp_all
    have ch: "child_at h it (index_of (tolower c)) = Inr (kids h it ! nat (index_of (tolower c)))"
      using tree_inv_child_at [OF t it i(1)] i(2) by simp
    show ?thesis
    proof (cases "kids h it ! nat (index_of (tolower c))")
      case (Some q)
      have "load_loop lim h 0 q cs = Inr (True, h')"
        using Cons.prems(3) nff(1) n ch Some by simp
      then show ?thesis
        using Cons.IH [OF load_inv_existing [OF Cons.prems(1) l Some] nff(2)] by simp
    next
      case None
      have lt: "length h < lim"
        using Cons.prems(3) nff(1) n ch None by (auto simp: alloc_node_def split: if_splits)
      have d: "deref (h @ [Some empty_node]) it = Inr (the (h ! it))"
        using tree_inv_deref [OF t it] it by (simp add: deref_def nth_append)
      have "load_loop lim ((h @ [Some empty_node])
           [it := Some ((the (h ! it))\<lparr>children := (kids h it)[nat (index_of (tolower c)) := Some (length h)]\<rparr>)])
           0 (length h) cs = Inr (True, h')"
        using Cons.prems(3) nff(1) n ch None lt d by (simp add: alloc_node_def kids_def)
      then show ?thesis
        using Cons.IH [OF load_inv_new [OF Cons.prems(1) l None] nff(2)] by simp
    qed
  qed
  then show ?case using wc by (simp add: word_chars_def)
qed

lemma load_True_read:
  assumes "load lim (Some src) init = Inr (True, s)"
  shows "word_chars (read_part src)" and "load lim (Some (read_part src)) init = Inr (True, s)"
proof -
  show l: "load lim (Some (read_part src)) init = Inr (True, s)"
    using assms by (simp add: load_read_part)
  have z: "0 < lim" "\<exists>h'. load_loop lim [Some empty_node] 0 0 (read_part src) = Inr (True, h')"
    using l by (auto simp: load_def init_def alloc_node_def split: if_splits sum.splits)
  have "CHR 0xFF \<notin> set (read_part src)"
    unfolding read_part_def by (metis (mono_tags, lifting) set_takeWhileD)
  then show "word_chars (read_part src)"
    using load_loop_True_chars [OF load_inv_init] z(2) by blast
qed

lemma load_True_tree:
  assumes "load lim (Some src) init = Inr (True, s)"
  shows "root s = Some 0 \<and>
         (\<exists>ps it. load_inv (mem s) ps (loaded_words (read_part src))
                    (map tolower (tail_from [] (read_part src))) it)"
  using load_True [OF load_True_read [OF assms]] .

lemma lines_from_takeWhile:
  "set (lines_from acc (takeWhile P cs)) \<subseteq> set (lines_from acc cs)"
  by (induction cs arbitrary: acc) auto

lemma loaded_words_read_part: "set (loaded_words (read_part src)) \<subseteq> set (loaded_words src)"
  unfolding loaded_words_def source_words_def read_part_def
  using lines_from_takeWhile [of "[]" "\<lambda>c. c \<noteq> CHR 0xFF" src] by auto

subsection \<open>Words and prefixes in the loaded trie\<close>

lemma cat_src_chars: "word_chars cat_src"
  by code_simp

lemma cat_src_source: "word_source cat_src"
  by code_simp

lemma cat_load: "load 10 (Some cat_src) init = Inr (True, cat_prog)"
  by code_simp

lemma prefixes_Nil: "prefixes (insert [] S) = insert [] (prefixes S)"
  by (auto simp: prefixes_def)

text \<open>
  Claim C2. After \<open>load\<close> has returned true on a source of alphabetic characters and
  newlines, every word \<open>W\<close> of the source (a line ended by a newline) is found: walking the
  letters of \<open>W\<close>, folded to lower case as \<open>load\<close> folds them, from the root one \<open>advance\<close> at
  a time ends at a live node whose \<open>is_word\<close> flag is set.
\<close>

theorem loaded_word_is_found:
  assumes "word_chars src" and "load lim (Some src) init = Inr (True, s)"
    and "W \<in> set (source_words src)"
  shows "\<exists>r q n. root s = Some r \<and> walk (mem s) r (map tolower W) = Inr (Some q) \<and>
           deref (mem s) q = Inr n \<and> is_word n"
proof -
  from load_True [OF assms(1,2)] obtain ps it
    where r: "root s = Some 0"
      and li: "load_inv (mem s) ps (loaded_words src) (map tolower (tail_from [] src)) it"
    by blast
  note t = load_invD(1) [OF li] and s = load_invD(2) [OF li] and w = load_invD(3) [OF li]
  have m: "map tolower W \<in> set (loaded_words src)"
    using assms(3) by (simp add: loaded_words_def)
  then have "map tolower W \<in> set ps"
    using s by (auto simp: prefixes_def)
  then obtain q where q: "q < length (mem s)" "ps ! q = map tolower W"
    using tree_invD(1) [OF t] by (auto simp: in_set_conv_nth)
  have "walk (mem s) 0 (map tolower W) = Inr (Some q)"
    using walk_in [OF t tree_invD(2) [OF t] q(1)] q(2) tree_invD(3) [OF t] by simp
  moreover have "deref (mem s) q = Inr (the (mem s ! q))"
    using tree_inv_deref [OF t q(1)] .
  moreover have "is_word (the (mem s ! q))"
    using w [OF q(1)] q(2) m by simp
  ultimately show ?thesis using r by blast
qed

theorem loaded_word_is_found_witness:
  "word_chars cat_src \<and> load 10 (Some cat_src) init = Inr (True, cat_prog) \<and>
   ''cats'' \<in> set (source_words cat_src) \<and>
   (\<exists>r q n. root cat_prog = Some r \<and> walk (mem cat_prog) r (map tolower ''cats'') = Inr (Some q) \<and>
       deref (mem cat_prog) q = Inr n \<and> is_word n)"
proof -
  have w: "''cats'' \<in> set (source_words cat_src)"
    by code_simp
  show ?thesis
    using cat_src_chars cat_load w loaded_word_is_found [OF cat_src_chars cat_load w] by blast
qed

lemma loaded_advance:
  assumes ld: "load lim (Some src) init = Inr (True, s)" and tl: "tail_from [] (read_part src) = []"
    and wf: "walk (mem s) 0 f = Inr (Some p)" and c: "islower c"
  shows "(\<exists>W\<in>set (loaded_words (read_part src)). prefix (f @ [c]) W) \<Longrightarrow> \<exists>q. advance (mem s) p c = Inr (Some q)"
    and "\<not> (\<exists>W\<in>set (loaded_words (read_part src)). prefix (f @ [c]) W) \<Longrightarrow> advance (mem s) p c = Inr None"
proof -
  from load_True_tree [OF ld] obtain ps it
    where li: "load_inv (mem s) ps (loaded_words (read_part src))
                 (map tolower (tail_from [] (read_part src))) it"
    by blast
  note t = load_invD(1) [OF li] and s = load_invD(2) [OF li]
  have s': "set ps = insert [] (prefixes (set (loaded_words (read_part src))))"
    using s tl by (simp add: prefixes_Nil)
  have p: "p < length (mem s)" "ps ! p = f"
    using walk_Some [OF t tree_invD(2) [OF t] wf] tree_invD(3) [OF t] by simp_all
  have i: "nat (index_of c) < CHARS" using islower_slot [OF c] by simp
  note a = tree_inv_advance [OF t p(1) c]
  have iff: "(\<exists>q. kids (mem s) p ! nat (index_of c) = Some q) \<longleftrightarrow> f @ [c] \<in> set ps"
  proof (cases "kids (mem s) p ! nat (index_of c)")
    case None
    then show ?thesis
      using tree_invD(8) [OF t p(1) i] p(2) ltr_index [OF c] by simp
  next
    case (Some q)
    then have "q < length (mem s)" "ps ! q = f @ [c]"
      using tree_invD(7) [OF t p(1) i, of q] p(2) ltr_index [OF c] by simp_all
    then have "f @ [c] \<in> set ps"
      using tree_invD(1) [OF t] by (metis nth_mem)
    then show ?thesis using Some by simp
  qed
  have m: "f @ [c] \<in> set ps \<longleftrightarrow> (\<exists>W\<in>set (loaded_words (read_part src)). prefix (f @ [c]) W)"
    unfolding s' prefixes_def by simp
  show "\<exists>q. advance (mem s) p c = Inr (Some q)"
    if "\<exists>W\<in>set (loaded_words (read_part src)). prefix (f @ [c]) W"
  proof -
    from that have "f @ [c] \<in> set ps" using m by simp
    then obtain q where "kids (mem s) p ! nat (index_of c) = Some q" using iff by blast
    then show ?thesis using a by simp
  qed
  show "advance (mem s) p c = Inr None"
    if "\<not> (\<exists>W\<in>set (loaded_words (read_part src)). prefix (f @ [c]) W)"
  proof -
    from that have "f @ [c] \<notin> set ps" using m by simp
    then have "kids (mem s) p ! nat (index_of c) = None" using iff by (metis not_Some_eq)
    then show ?thesis using a by simp
  qed
qed

lemma loaded_diverges:
  assumes ld: "load lim (Some src) init = Inr (True, s)" and tl: "tail_from [] (read_part src) = []"
    and P: "P \<noteq> []" "\<forall>c\<in>set P. islower c" "\<not> (\<exists>W\<in>set (loaded_words (read_part src)). prefix P W)"
  shows "walk (mem s) 0 P = Inr None \<and>
         (\<exists>f c rest p. P = f @ c # rest \<and> walk (mem s) 0 f = Inr (Some p) \<and>
            advance (mem s) p c = Inr None)"
proof -
  from load_True_tree [OF ld] obtain ps it
    where li: "load_inv (mem s) ps (loaded_words (read_part src))
                 (map tolower (tail_from [] (read_part src))) it"
    by blast
  note t = load_invD(1) [OF li] and s = load_invD(2) [OF li]
  have s': "set ps = insert [] (prefixes (set (loaded_words (read_part src))))"
    using s tl by (simp add: prefixes_Nil)
  have "P \<notin> set ps" using P(1,3) s' by (auto simp: prefixes_def)
  then have n: "ps ! 0 @ P \<notin> set ps" using tree_invD(3) [OF t] by simp
  show ?thesis
    using walk_None [OF t tree_invD(2) [OF t] P(2) n] walk_diverges [OF t tree_invD(2) [OF t] P(2) n]
    by blast
qed

subsection \<open>The game loop\<close>

lemma takeWhile_zeros: "NUL \<notin> set f \<Longrightarrow> takeWhile (\<lambda>c. c \<noteq> NUL) (f @ replicate k NUL) = f"
  by (induction f) (auto simp: takeWhile_replicate)

lemma takeWhile_letter_zeros:
  "NUL \<notin> set f \<Longrightarrow> c \<noteq> NUL \<Longrightarrow> takeWhile (\<lambda>c. c \<noteq> NUL) (f @ c # replicate k NUL) = f @ [c]"
  using takeWhile_zeros [of "f @ [c]" k] by simp

lemma buffer_okD:
  assumes "buffer_ok g"
  shows "fragment g = stored g @ replicate (MAX_LENGTH - letter_count g) NUL"
    and "NUL \<notin> set (stored g)" and "length (stored g) = letter_count g"
    and "letter_count g \<le> MAX_LENGTH"
proof -
  from assms obtain f where f: "NUL \<notin> set f" "length f = letter_count g"
      "letter_count g \<le> MAX_LENGTH" "fragment g = f @ replicate (MAX_LENGTH - letter_count g) NUL"
    unfolding buffer_ok_def by blast
  have "stored g = f" using f(1,4) by (simp add: stored_def takeWhile_zeros)
  then show "fragment g = stored g @ replicate (MAX_LENGTH - letter_count g) NUL"
    and "NUL \<notin> set (stored g)" and "length (stored g) = letter_count g"
    and "letter_count g \<le> MAX_LENGTH"
    using f by simp_all
qed

lemma buffer_ok_start: "buffer_ok (start r)"
  unfolding buffer_ok_def start_def by simp

lemma stored_start: "stored (start r) = []"
  by (simp add: stored_def start_def)

lemma buffer_write:
  assumes b: "buffer_ok g" and l: "letter_count g < MAX_LENGTH" and c: "c \<noteq> NUL"
  shows "(fragment g)[letter_count g := c] =
           (stored g @ [c]) @ replicate (MAX_LENGTH - Suc (letter_count g)) NUL"
proof -
  obtain k where k: "MAX_LENGTH - letter_count g = Suc k" "MAX_LENGTH - Suc (letter_count g) = k"
    using l by (metis Suc_diff_Suc)
  show ?thesis
    using buffer_okD(1,3) [OF b] k by (simp add: list_update_append)
qed

lemma stored_write:
  assumes b: "buffer_ok g" and l: "letter_count g < MAX_LENGTH" and c: "c \<noteq> NUL"
  shows "stored (g\<lparr>fragment := (fragment g)[letter_count g := c], letter := q\<rparr>) = stored g @ [c]"
  using buffer_write [OF assms] buffer_okD(2) [OF b] c
  by (simp add: stored_def [of "g\<lparr>fragment := _, letter := _\<rparr>"] takeWhile_letter_zeros)

lemma islower_not_NUL: "islower c \<Longrightarrow> c \<noteq> NUL"
  by (auto simp: islower_def)

text \<open>The three ways through the loop body: the letter is rejected, it ends the game, or
  it is appended and the turn passes.\<close>

lemma turn_cases:
  assumes "turn h N g c = Inr st"
  obtains (rejected) "advance h (letter g) (tolower c) = Inr None" "st = Continue g"
  | (broke) q n where "advance h (letter g) (tolower c) = Inr (Some q)"
      "letter_count g < MAX_LENGTH" "deref h q = Inr n" "is_word n" "MIN_LENGTH \<le> letter_count g"
      "st = Break (g\<lparr>fragment := (fragment g)[letter_count g := tolower c], letter := q\<rparr>)"
  | (moved) q n where "advance h (letter g) (tolower c) = Inr (Some q)"
      "letter_count g < MAX_LENGTH" "deref h q = Inr n" "\<not> (is_word n \<and> MIN_LENGTH \<le> letter_count g)"
      "N \<noteq> 0"
      "st = Continue (g\<lparr>fragment := (fragment g)[letter_count g := tolower c], letter := q,
                        curr_player := c_rem (curr_player g) N + 1,
                        letter_count := letter_count g + 1\<rparr>)"
  using assms unfolding turn_def Let_def
  by (auto split: sum.splits option.splits if_splits)

lemma game_inv_turn:
  assumes i: "game_inv h r g" and t: "turn h N g c = Inr (Continue g')"
  shows "game_inv h r g'"
  using t
proof (cases rule: turn_cases)
  case rejected
  then show ?thesis using i by simp
next
  case (broke q n)
  then show ?thesis by simp
next
  case (moved q n)
  from i have b: "buffer_ok g" and w: "walk h r (stored g) = Inr (Some (letter g))"
    unfolding game_inv_def by simp_all
  let ?c = "tolower c"
  have nz: "?c \<noteq> NUL"
    using advance_Inr_islower [OF moved(1)] islower_not_NUL by simp
  note bw = buffer_write [OF b moved(2) nz]
  have nn: "NUL \<notin> set (stored g @ [?c])"
    using buffer_okD(2) [OF b] nz by auto
  have b': "buffer_ok g'"
    unfolding buffer_ok_def
    using moved(2,6) bw nn buffer_okD(3) [OF b]
    by (intro exI [of _ "stored g @ [?c]"]) simp
  have "stored g' = takeWhile (\<lambda>c. c \<noteq> NUL) ((fragment g)[letter_count g := ?c])"
    using moved(6) by (simp add: stored_def)
  then have "stored g' = stored g @ [?c]"
    using bw buffer_okD(2) [OF b] nz by (simp add: takeWhile_letter_zeros)
  then have "walk h r (stored g') = Inr (Some (letter g'))"
    using w moved(1,6) by (simp add: walk_append)
  then show ?thesis using b' by (simp add: game_inv_def)
qed

lemma game_inv_start: "game_inv h r (start r)"
  by (simp add: game_inv_def buffer_ok_start stored_start) (simp add: start_def)

lemma dropWhile_alpha_hd:
  assumes "dropWhile (\<lambda>c. \<not> isalpha c) inp = c # rest"
  shows "isalpha c"
  using hd_dropWhile [of "\<lambda>c. \<not> isalpha c" inp] assms by auto

lemma play_Inl:
  "cstring (fragment g) = Inl f \<Longrightarrow> play h N g inp = Inl f"
  by (subst play.simps) simp

lemma play_Nil:
  assumes "cstring (fragment g) = Inr shown" and "dropWhile (\<lambda>c. \<not> isalpha c) inp = []"
  shows "play h N g inp = Inr (Awaiting g)"
  by (subst play.simps) (simp only: assms sum.case list.case)

lemma play_Cons:
  assumes "cstring (fragment g) = Inr shown" and "dropWhile (\<lambda>c. \<not> isalpha c) inp = c # rest"
  shows "play h N g inp =
     (case turn h N g c of
        Inl f \<Rightarrow> Inl f
      | Inr (Continue g') \<Rightarrow> play h N g' rest
      | Inr (Break g') \<Rightarrow>
          (case cstring (fragment g') of
             Inl f \<Rightarrow> Inl f
           | Inr w \<Rightarrow> Inr (GameOver (curr_player g') w)))"
  by (subst play.simps) (simp only: assms sum.case list.case)

lemma game_inv_play:
  "game_inv h r g \<Longrightarrow> play h N g inp = Inr (Awaiting g') \<Longrightarrow> game_inv h r g'"
proof (induction h N g inp rule: play.induct)
  case (1 h N g inp)
  obtain shown where sh: "cstring (fragment g) = Inr shown"
    using "1.prems"(2) play_Inl [of g _ h N inp] by (cases "cstring (fragment g)") auto
  show ?case
  proof (cases "dropWhile (\<lambda>c. \<not> isalpha c) inp")
    case Nil
    then have "g' = g" using "1.prems"(2) play_Nil [OF sh Nil, of h N] by simp
    then show ?thesis using "1.prems"(1) by simp
  next
    case (Cons c rest)
    from "1.prems"(2) obtain g1 where t: "turn h N g c = Inr (Continue g1)"
      and p: "play h N g1 rest = Inr (Awaiting g')"
      unfolding play_Cons [OF sh Cons]
      by (auto split: sum.splits step.splits)
    show ?thesis
      using "1.IH" [OF sh Cons t refl game_inv_turn [OF "1.prems"(1) t] p] .
  qed
qed

text \<open>
  Claim C9. The loop invariant \<open>game_inv\<close> holds in the state \<open>main\<close> enters the loop
  with, and every pass through the loop body that returns to the top of the loop, after a
  rejected letter or an accepted one, preserves it. Where it holds, the cursor \<open>letter\<close> is
  the node the walk of the fragment from the root ends at and \<open>letter_count\<close> is the
  number of characters the fragment holds. So both hold in every state \<open>g\<close> in which the
  program waits for a letter, whatever it has read. None of this needs anything of the
  heap.
\<close>

theorem cursor_follows_fragment:
  "game_inv h r (start r) \<and>
   (game_inv h r g \<and> turn h N g c = Inr (Continue g') \<longrightarrow> game_inv h r g') \<and>
   (game_inv h r g \<longrightarrow>
      walk h r (stored g) = Inr (Some (letter g)) \<and> letter_count g = length (stored g)) \<and>
   (play h N (start r) inp = Inr (Awaiting g) \<longrightarrow>
      walk h r (stored g) = Inr (Some (letter g)) \<and> letter_count g = length (stored g))"
proof -
  have i: "walk h r (stored g) = Inr (Some (letter g)) \<and> letter_count g = length (stored g)"
    if "game_inv h r g" for g
    using that buffer_okD(3) [of g] by (simp add: game_inv_def)
  have "game_inv h r g" if "play h N (start r) inp = Inr (Awaiting g)"
    using game_inv_play [OF game_inv_start that] .
  then show ?thesis
    using i game_inv_start [of h r] game_inv_turn [of h r g N c g'] by blast
qed

lemma ghost_load: "load 10 (Some ghost_src) init = Inr (True, ghost_prog)"
  by code_simp

lemma cat_root: "root cat_prog = Some 0"
  by code_simp

theorem cursor_follows_fragment_witness:
  "game_inv (mem cat_prog) 0 (start 0) \<and>
   turn (mem cat_prog) 2 (start 0) CHR ''C'' =
     Inr (Continue \<lparr>curr_player = 2, letter_count = 1,
                     fragment = ''c'' @ replicate 44 NUL, letter = 1\<rparr>) \<and>
   game_inv (mem cat_prog) 0
     \<lparr>curr_player = 2, letter_count = 1, fragment = ''c'' @ replicate 44 NUL, letter = 1\<rparr> \<and>
   play (mem cat_prog) 2 (start 0) ''c?A'' =
     Inr (Awaiting \<lparr>curr_player = 1, letter_count = 2,
                     fragment = ''ca'' @ replicate 43 NUL, letter = 2\<rparr>) \<and>
   walk (mem cat_prog) 0
     (stored \<lparr>curr_player = 1, letter_count = 2, fragment = ''ca'' @ replicate 43 NUL, letter = 2\<rparr>) =
     Inr (Some (letter \<lparr>curr_player = 1, letter_count = 2,
                        fragment = ''ca'' @ replicate 43 NUL, letter = 2\<rparr>)) \<and>
   letter_count \<lparr>curr_player = 1, letter_count = 2, fragment = ''ca'' @ replicate 43 NUL, letter = 2\<rparr> =
     length (stored \<lparr>curr_player = 1, letter_count = 2,
                      fragment = ''ca'' @ replicate 43 NUL, letter = 2\<rparr>)"
proof -
  have t: "turn (mem cat_prog) 2 (start 0) CHR ''C'' =
     Inr (Continue \<lparr>curr_player = 2, letter_count = 1,
                     fragment = ''c'' @ replicate 44 NUL, letter = 1\<rparr>)"
    by code_simp
  have p: "play (mem cat_prog) 2 (start 0) ''c?A'' =
     Inr (Awaiting \<lparr>curr_player = 1, letter_count = 2,
                     fragment = ''ca'' @ replicate 43 NUL, letter = 2\<rparr>)"
    by code_simp
  note a = cursor_follows_fragment [of "mem cat_prog" 0 "start 0" 2 "CHR ''C''"
      "\<lparr>curr_player = 2, letter_count = 1, fragment = ''c'' @ replicate 44 NUL, letter = 1\<rparr>"]
  note b = cursor_follows_fragment [where h = "mem cat_prog" and r = 0 and N = 2 and inp = "''c?A''"
      and g = "\<lparr>curr_player = 1, letter_count = 2, fragment = ''ca'' @ replicate 43 NUL, letter = 2\<rparr>"]
  show ?thesis
    using t p a b by simp
qed

text \<open>
  Claim C4. When \<open>advance\<close> returns \<open>None\<close> for the letter read, the pass through the loop
  body ends at \<open>continue\<close> with the game state it started with: fragment, letter count,
  cursor and current player are all unchanged. The program then behaves on the remaining
  input as if the rejected character had not been read, so the same player moves again.
\<close>

theorem rejected_letter_keeps_state:
  assumes "advance h (letter g) (tolower c) = Inr None"
  shows "turn h N g c = Inr (Continue g) \<and>
         (isalpha c \<longrightarrow> play h N g (c # rest) = play h N g rest)"
proof -
  have t: "turn h N g c = Inr (Continue g)"
    using assms by (simp add: turn_def)
  have "play h N g (c # rest) = play h N g rest" if a: "isalpha c"
  proof (cases "cstring (fragment g)")
    case (Inl f)
    then show ?thesis by (simp add: play_Inl)
  next
    case (Inr shown)
    have d: "dropWhile (\<lambda>c. \<not> isalpha c) (c # rest) = c # rest" using a by simp
    show ?thesis using play_Cons [OF Inr d, of h N] t by simp
  qed
  then show ?thesis using t by simp
qed

theorem rejected_letter_keeps_state_witness:
  "advance (mem cat_prog) (letter (start 0)) (tolower CHR ''x'') = Inr None \<and>
   turn (mem cat_prog) 2 (start 0) CHR ''x'' = Inr (Continue (start 0)) \<and>
   isalpha CHR ''x'' \<and>
   play (mem cat_prog) 2 (start 0) (CHR ''x'' # ''c'') = play (mem cat_prog) 2 (start 0) ''c''"
proof -
  have a: "advance (mem cat_prog) (letter (start 0)) (tolower CHR ''x'') = Inr None"
    by code_simp
  have b: "isalpha CHR ''x''"
    by code_simp
  show ?thesis
    using a b rejected_letter_keeps_state [OF a, where N = 2 and rest = "''c''"] by simp
qed

lemma c_rem_pos: "0 \<le> a \<Longrightarrow> 0 < b \<Longrightarrow> c_rem a b = a mod b"
  by (cases "a = 0") (simp_all add: c_rem_def)

lemma accepted_player:
  assumes "accepted h N g c g'" and "1 \<le> curr_player g" and "curr_player g \<le> N"
  shows "curr_player g' = curr_player g mod N + 1"
proof -
  from assms(1) have t: "turn h N g c = Inr (Continue g')"
    and a: "advance h (letter g) (tolower c) \<noteq> Inr None"
    by (simp_all add: accepted_def)
  have "curr_player g' = c_rem (curr_player g) N + 1"
    using t a by (cases rule: turn_cases) simp_all
  then show ?thesis
    using assms(2,3) by (simp add: c_rem_pos)
qed

text \<open>
  Claim C5. A letter that is accepted and does not end the game replaces the current
  player \<open>p\<close>, \<open>1 \<le> p \<le> N\<close>, by \<open>p mod N + 1\<close>: the next player, and player 1 after player
  \<open>N\<close>. With three players, over any five such letters in a row starting from player 1, the
  players who act are 1, 2, 3, 1, 2. So they are on the dictionary of "ghosts" for the letters
  g, h, o, s, t: those are the players prompted before each of them (and player 3 is
  prompted after them).
\<close>

theorem round_robin:
  "(accepted h N g c g' \<and> 1 \<le> curr_player g \<and> curr_player g \<le> N \<longrightarrow>
      curr_player g' = curr_player g mod N + 1 \<and>
      1 \<le> curr_player g' \<and> curr_player g' \<le> N \<and>
      curr_player g' = (if curr_player g = N then 1 else curr_player g + 1)) \<and>
   (curr_player g0 = 1 \<and> accepted h 3 g0 c0 g1 \<and> accepted h 3 g1 c1 g2 \<and>
    accepted h 3 g2 c2 g3 \<and> accepted h 3 g3 c3 g4 \<and> accepted h 3 g4 c4 g5 \<longrightarrow>
      map curr_player [g0, g1, g2, g3, g4] = [1, 2, 3, 1, 2]) \<and>
   map (to_move (mem ghost_prog) 3 0) [[], ''g'', ''gh'', ''gho'', ''ghos'', ''ghost''] =
     [Some 1, Some 2, Some 3, Some 1, Some 2, Some 3]"
proof -
  have one: "curr_player g' = curr_player g mod N + 1 \<and>
      1 \<le> curr_player g' \<and> curr_player g' \<le> N \<and>
      curr_player g' = (if curr_player g = N then 1 else curr_player g + 1)"
    if a: "accepted h N g c g'" and p: "1 \<le> curr_player g" "curr_player g \<le> N"
  proof -
    note e = accepted_player [OF a p]
    have "curr_player g mod N = (if curr_player g = N then 0 else curr_player g)"
      using p by simp
    then have "curr_player g' = (if curr_player g = N then 1 else curr_player g + 1)"
      using e by simp
    then show ?thesis using e p by simp
  qed
  have five: "map curr_player [g0, g1, g2, g3, g4] = [1, 2, 3, 1, 2]"
    if s: "curr_player g0 = 1" and a: "accepted h 3 g0 c0 g1" "accepted h 3 g1 c1 g2"
      "accepted h 3 g2 c2 g3" "accepted h 3 g3 c3 g4"
  proof -
    have 1: "curr_player g1 = 2" using accepted_player [OF a(1)] s by simp
    have 2: "curr_player g2 = 3" using accepted_player [OF a(2)] 1 by simp
    have 3: "curr_player g3 = 1" using accepted_player [OF a(3)] 2 by simp
    have 4: "curr_player g4 = 2" using accepted_player [OF a(4)] 3 by simp
    show ?thesis using s 1 2 3 4 by simp
  qed
  have "map (to_move (mem ghost_prog) 3 0) [[], ''g'', ''gh'', ''gho'', ''ghos'', ''ghost''] =
           [Some 1, Some 2, Some 3, Some 1, Some 2, Some 3]"
    by code_simp
  then show ?thesis using one five by blast
qed

theorem round_robin_witness:
  "accepted (mem ghost_prog) 3 ((start 0)\<lparr>curr_player := 3\<rparr>) CHR ''G''
     \<lparr>curr_player = 1, letter_count = 1, fragment = ''g'' @ replicate 44 NUL, letter = 1\<rparr> \<and>
   curr_player \<lparr>curr_player = 1, letter_count = 1, fragment = ''g'' @ replicate 44 NUL, letter = 1\<rparr> =
     curr_player ((start 0)\<lparr>curr_player := 3\<rparr>) mod 3 + 1 \<and>
   curr_player (start 0) = 1 \<and>
   accepted (mem ghost_prog) 3 (start 0) CHR ''g''
     \<lparr>curr_player = 2, letter_count = 1, fragment = ''g'' @ replicate 44 NUL, letter = 1\<rparr> \<and>
   accepted (mem ghost_prog) 3
     \<lparr>curr_player = 2, letter_count = 1, fragment = ''g'' @ replicate 44 NUL, letter = 1\<rparr> CHR ''h''
     \<lparr>curr_player = 3, letter_count = 2, fragment = ''gh'' @ replicate 43 NUL, letter = 2\<rparr> \<and>
   accepted (mem ghost_prog) 3
     \<lparr>curr_player = 3, letter_count = 2, fragment = ''gh'' @ replicate 43 NUL, letter = 2\<rparr> CHR ''o''
     \<lparr>curr_player = 1, letter_count = 3, fragment = ''gho'' @ replicate 42 NUL, letter = 3\<rparr> \<and>
   accepted (mem ghost_prog) 3
     \<lparr>curr_player = 1, letter_count = 3, fragment = ''gho'' @ replicate 42 NUL, letter = 3\<rparr> CHR ''s''
     \<lparr>curr_player = 2, letter_count = 4, fragment = ''ghos'' @ replicate 41 NUL, letter = 4\<rparr> \<and>
   accepted (mem ghost_prog) 3
     \<lparr>curr_player = 2, letter_count = 4, fragment = ''ghos'' @ replicate 41 NUL, letter = 4\<rparr> CHR ''t''
     \<lparr>curr_player = 3, letter_count = 5, fragment = ''ghost'' @ replicate 40 NUL, letter = 5\<rparr> \<and>
   map curr_player
     [start 0,
      \<lparr>curr_player = 2, letter_count = 1, fragment = ''g'' @ replicate 44 NUL, letter = 1\<rparr>,
      \<lparr>curr_player = 3, letter_count = 2, fragment = ''gh'' @ replicate 43 NUL, letter = 2\<rparr>,
      \<lparr>curr_player = 1, letter_count = 3, fragment = ''gho'' @ replicate 42 NUL, letter = 3\<rparr>,
      \<lparr>curr_player = 2, letter_count = 4, fragment = ''ghos'' @ replicate 41 NUL, letter = 4\<rparr>] =
     [1, 2, 3, 1, 2]"
proof -
  let ?g1 = "\<lparr>curr_player = 2, letter_count = 1, fragment = ''g'' @ replicate 44 NUL, letter = 1\<rparr>"
  let ?g2 = "\<lparr>curr_player = 3, letter_count = 2, fragment = ''gh'' @ replicate 43 NUL, letter = 2\<rparr>"
  let ?g3 = "\<lparr>curr_player = 1, letter_count = 3, fragment = ''gho'' @ replicate 42 NUL, letter = 3\<rparr>"
  let ?g4 = "\<lparr>curr_player = 2, letter_count = 4, fragment = ''ghos'' @ replicate 41 NUL, letter = 4\<rparr>"
  let ?g5 = "\<lparr>curr_player = 3, letter_count = 5, fragment = ''ghost'' @ replicate 40 NUL, letter = 5\<rparr>"
  have w: "accepted (mem ghost_prog) 3 ((start 0)\<lparr>curr_player := 3\<rparr>) CHR ''G''
     \<lparr>curr_player = 1, letter_count = 1, fragment = ''g'' @ replicate 44 NUL, letter = 1\<rparr>"
    by code_simp
  have p: "1 \<le> curr_player ((start 0)\<lparr>curr_player := 3\<rparr>)" "curr_player ((start 0)\<lparr>curr_player := 3\<rparr>) \<le> 3"
    by simp_all
  have s: "curr_player (start 0) = 1" by (simp add: start_def)
  have a0: "accepted (mem ghost_prog) 3 (start 0) CHR ''g'' ?g1" by code_simp
  have a1: "accepted (mem ghost_prog) 3 ?g1 CHR ''h'' ?g2" by code_simp
  have a2: "accepted (mem ghost_prog) 3 ?g2 CHR ''o'' ?g3" by code_simp
  have a3: "accepted (mem ghost_prog) 3 ?g3 CHR ''s'' ?g4" by code_simp
  have a4: "accepted (mem ghost_prog) 3 ?g4 CHR ''t'' ?g5" by code_simp
  note th = round_robin [of "mem ghost_prog" 3 "(start 0)\<lparr>curr_player := 3\<rparr>" "CHR ''G''"
      "\<lparr>curr_player = 1, letter_count = 1, fragment = ''g'' @ replicate 44 NUL, letter = 1\<rparr>"
      "start 0" "CHR ''g''" ?g1 "CHR ''h''" ?g2 "CHR ''o''" ?g3 "CHR ''s''" ?g4 "CHR ''t''" ?g5]
  have 1: "curr_player \<lparr>curr_player = 1, letter_count = 1, fragment = ''g'' @ replicate 44 NUL, letter = 1\<rparr> =
     curr_player ((start 0)\<lparr>curr_player := 3\<rparr>) mod 3 + 1"
    using th w p by blast
  have 2: "map curr_player [start 0, ?g1, ?g2, ?g3, ?g4] = [1, 2, 3, 1, 2]"
    using th s a0 a1 a2 a3 a4 by blast
  show ?thesis
    using w 1 s a0 a1 a2 a3 a4 2 by blast
qed

lemma turn_not_OutOfBounds:
  assumes t: "tree_inv h ps" and l: "letter g < length h" and a: "isalpha c"
  shows "turn h N g c \<noteq> Inl OutOfBounds \<and> turn h N g c \<noteq> Inl Dangling \<and>
         (\<forall>g'. turn h N g c = Inr (Continue g') \<longrightarrow> letter g' < length h)"
proof -
  have lc: "islower (tolower c)" using tolower_alpha [OF a] .
  note adv = tree_inv_advance [OF t l lc]
  show ?thesis
  proof (cases "kids h (letter g) ! nat (index_of (tolower c))")
    case None
    then show ?thesis using adv l by (simp add: turn_def)
  next
    case (Some q)
    then have q: "q < length h"
      using tree_invD(7) [OF t l, of "nat (index_of (tolower c))" q] islower_slot [OF lc] by simp
    show ?thesis
      using adv Some tree_inv_deref [OF t q] q by (simp add: turn_def Let_def)
  qed
qed

lemma play_not_OutOfBounds:
  "tree_inv h ps \<Longrightarrow> letter g < length h \<Longrightarrow> play h N g inp \<noteq> Inl OutOfBounds"
proof (induction h N g inp rule: play.induct)
  case (1 h N g inp)
  note t = "1.prems"(1)
  show ?case
  proof (cases "cstring (fragment g)")
    case (Inl f)
    then have "f = Unterminated" by (auto simp: cstring_def split: if_splits)
    then show ?thesis using play_Inl [OF Inl] by simp
  next
    case (Inr shown)
    show ?thesis
    proof (cases "dropWhile (\<lambda>c. \<not> isalpha c) inp")
      case Nil
      then show ?thesis using play_Nil [OF Inr Nil] by simp
    next
      case (Cons c rest)
      have a: "isalpha c" using dropWhile_alpha_hd [OF Cons] .
      note tn = turn_not_OutOfBounds [OF t "1.prems"(2) a, of N]
      show ?thesis
      proof (cases "turn h N g c")
        case (Inl f)
        then show ?thesis using tn play_Cons [OF Inr Cons, of h N] by auto
      next
        case st: (Inr st)
        show ?thesis
        proof (cases st)
          case (Continue g')
          then have "letter g' < length h" using tn st by simp
          then show ?thesis
            using "1.IH" [OF Inr Cons st Continue t] play_Cons [OF Inr Cons, of h N] st Continue
            by simp
        next
          case (Break g')
          then show ?thesis
            using play_Cons [OF Inr Cons, of h N] st
            by (auto simp: cstring_def split: if_splits)
        qed
      qed
    qed
  qed
qed

text \<open>
  Claim C10. For an alphabetic character the index \<open>tolower(c) - 'a'\<close> lies in 0..25. On a
  source of alphabetic characters and newlines \<open>load\<close> returns without fault, so no access
  to \<open>children\<close> is out of bounds (the index computed for a newline is never used); and on
  a trie \<open>load\<close> has built the game loop, whatever it reads, never indexes \<open>children\<close> out
  of bounds.
\<close>

theorem child_index_in_bounds:
  "(isalpha c \<longrightarrow> 0 \<le> index_of (tolower c) \<and> index_of (tolower c) < int CHARS) \<and>
   (word_chars src \<longrightarrow> (\<exists>ok s. load lim (Some src) init = Inr (ok, s))) \<and>
   (load lim (Some src) init = Inr (True, s) \<and> root s = Some r \<longrightarrow>
      play (mem s) N (start r) inp \<noteq> Inl OutOfBounds)"
proof -
  have "0 \<le> index_of (tolower c) \<and> index_of (tolower c) < int CHARS" if "isalpha c"
    using islower_index [OF tolower_alpha [OF that]] by simp
  moreover have "play (mem s) N (start r) inp \<noteq> Inl OutOfBounds"
    if ld: "load lim (Some src) init = Inr (True, s)" and r: "root s = Some r"
  proof -
    from load_True_tree [OF ld] obtain ps it
      where r0: "root s = Some 0"
        and li: "load_inv (mem s) ps (loaded_words (read_part src))
                   (map tolower (tail_from [] (read_part src))) it"
      by blast
    note t = load_invD(1) [OF li]
    have "letter (start r) < length (mem s)"
      using r r0 tree_invD(2) [OF t] by (simp add: start_def)
    then show ?thesis using play_not_OutOfBounds [OF t] by simp
  qed
  ultimately show ?thesis using load_Inr [of src lim] by blast
qed

theorem child_index_in_bounds_witness:
  "isalpha CHR ''Q'' \<and> 0 \<le> index_of (tolower CHR ''Q'') \<and> index_of (tolower CHR ''Q'') < int CHARS \<and>
   word_chars cat_src \<and> (\<exists>ok s. load 3 (Some cat_src) init = Inr (ok, s)) \<and>
   load 10 (Some cat_src) init = Inr (True, cat_prog) \<and> root cat_prog = Some 0 \<and>
   play (mem cat_prog) 2 (start 0) ''zcatz'' \<noteq> Inl OutOfBounds"
proof -
  have a: "isalpha CHR ''Q''" by code_simp
  show ?thesis
    using a cat_src_chars cat_load cat_root
      child_index_in_bounds [of "CHR ''Q''" cat_src 3 cat_prog 0 2 "''zcatz''"]
      child_index_in_bounds [of "CHR ''Q''" cat_src 10 cat_prog 0 2 "''zcatz''"]
    by blast
qed

lemma cstring_buffer:
  assumes b: "buffer_ok g" and l: "letter_count g < MAX_LENGTH"
  shows "cstring (fragment g) = Inr (stored g)"
proof -
  obtain k where "MAX_LENGTH - letter_count g = Suc k"
    using l by (metis Suc_diff_Suc)
  then have "NUL \<in> set (fragment g)"
    using buffer_okD(1) [OF b] by (metis in_set_conv_decomp replicate_Suc)
  then show ?thesis by (simp add: cstring_def stored_def)
qed

lemma play_no_input:
  "play h N g [] \<noteq> Inr (GameOver p w)"
  by (subst play.simps) (simp split: sum.splits)

lemma game_over_iff:
  assumes src: "word_source src"
    and room: "letter_count g + 1 < MAX_LENGTH \<or> (\<forall>W\<in>set (loaded_words src). length W < MAX_LENGTH)"
    and ld: "load lim (Some src) init = Inr (True, s)" and r: "root s = Some r"
    and reach: "play (mem s) N (start r) inp = Inr (Awaiting g)" and a: "isalpha c"
  shows "play (mem s) N g [c] = Inr (GameOver p w) \<longleftrightarrow>
           stored g @ [tolower c] \<in> set (loaded_words src) \<and>
           MIN_LENGTH < length (stored g @ [tolower c]) \<and>
           p = curr_player g \<and> w = stored g @ [tolower c]"
proof -
  let ?h = "mem s" and ?c = "tolower c" and ?ws = "loaded_words src"
  let ?f = "stored g @ [?c]"
  have ch: "word_chars src" and tl: "tail_from [] src = []"
    using src by (simp_all add: word_source_def)
  from load_True [OF ch ld] obtain ps it
    where r0: "root s = Some 0" and li: "load_inv ?h ps ?ws (map tolower (tail_from [] src)) it"
    by blast
  note t = load_invD(1) [OF li] and isw = load_invD(3) [OF li]
  have sps: "set ps = insert [] (prefixes (set ?ws))"
    using load_invD(2) [OF li] tl by (simp add: prefixes_Nil)
  have r: "r = 0" using r r0 by simp
  have gi: "game_inv ?h 0 g"
    using game_inv_play [OF game_inv_start reach [unfolded r]] .
  then have b: "buffer_ok g" and wk: "walk ?h 0 (stored g) = Inr (Some (letter g))"
    by (simp_all add: game_inv_def)
  have lg: "letter g < length ?h" "ps ! letter g = stored g"
    using walk_Some [OF t tree_invD(2) [OF t] wk] tree_invD(3) [OF t] by simp_all
  have short: "length v < MAX_LENGTH"
    if v: "v \<in> set ps" and fit: "\<forall>W\<in>set (loaded_words src). length W < MAX_LENGTH" for v
  proof (cases "v = []")
    case True then show ?thesis by simp
  next
    case False
    then obtain W where "W \<in> set ?ws" "prefix v W"
      using v sps by (auto simp: prefixes_def)
    then show ?thesis using fit prefix_length_le [of v W] by fastforce
  qed
  have "stored g \<in> set ps"
    using lg tree_invD(1) [OF t] by (metis nth_mem)
  then have lc: "letter_count g < MAX_LENGTH"
    using room short [of "stored g"] buffer_okD(3) [OF b] by fastforce
  note cs = cstring_buffer [OF b lc]
  have d: "dropWhile (\<lambda>c. \<not> isalpha c) [c] = [c]" using a by simp
  note pc = play_Cons [OF cs d, of ?h N]
  have low: "islower ?c" using tolower_alpha [OF a] .
  have i: "nat (index_of ?c) < CHARS" using islower_slot [OF low] by simp
  note adv = tree_inv_advance [OF t lg(1) low]
  show ?thesis
  proof (cases "kids ?h (letter g) ! nat (index_of ?c)")
    case None
    then have "?f \<notin> set ps"
      using tree_invD(8) [OF t lg(1) i] lg(2) ltr_index [OF low] by simp
    then have "?f \<notin> set ?ws" using sps by (auto simp: prefixes_def)
    moreover have "turn ?h N g c = Inr (Continue g)"
      using adv None by (simp add: turn_def)
    ultimately show ?thesis using pc play_no_input by simp
  next
    case (Some q)
    then have q: "q < length ?h" "ps ! q = ?f"
      using tree_invD(7) [OF t lg(1) i, of q] lg(2) ltr_index [OF low] by simp_all
    then have "?f \<in> set ps" using tree_invD(1) [OF t] by (metis nth_mem)
    then have lc1: "Suc (letter_count g) < MAX_LENGTH"
      using room short [of ?f] buffer_okD(3) [OF b] by fastforce
    have dq: "deref ?h q = Inr (the (?h ! q))" using tree_inv_deref [OF t q(1)] .
    have wq: "is_word (the (?h ! q)) \<longleftrightarrow> ?f \<in> set ?ws"
      using isw [OF q(1)] q(2) by simp
    have len: "MIN_LENGTH < length ?f \<longleftrightarrow> MIN_LENGTH \<le> letter_count g"
      using buffer_okD(3) [OF b] by auto
    let ?g1 = "g\<lparr>fragment := (fragment g)[letter_count g := ?c], letter := q\<rparr>"
    show ?thesis
    proof (cases "is_word (the (?h ! q)) \<and> MIN_LENGTH \<le> letter_count g")
      case True
      then have tn: "turn ?h N g c = Inr (Break ?g1)"
        using adv Some lc dq by (simp add: turn_def Let_def)
      have fr: "fragment ?g1 = ?f @ replicate (MAX_LENGTH - Suc (letter_count g)) NUL"
        using buffer_write [OF b lc islower_not_NUL [OF low]] by simp
      obtain k where "MAX_LENGTH - Suc (letter_count g) = Suc k"
        using lc1 by (metis Suc_diff_Suc)
      then have "NUL \<in> set (fragment ?g1)"
        using fr by (metis in_set_conv_decomp replicate_Suc)
      moreover have "stored ?g1 = ?f"
        using stored_write [OF b lc islower_not_NUL [OF low]] .
      ultimately have "cstring (fragment ?g1) = Inr ?f"
        by (simp add: cstring_def stored_def)
      then have "play ?h N g [c] = Inr (GameOver (curr_player g) ?f)"
        using pc tn by simp
      then show ?thesis using True wq len by auto
    next
      case False
      have "play ?h N g [c] \<noteq> Inr (GameOver p w)"
      proof (cases "N = 0")
        case True
        then have "turn ?h N g c = Inl DivByZero"
          using adv Some lc dq False by (simp add: turn_def Let_def)
        then show ?thesis using pc by simp
      next
        case N: False
        then obtain g2 where "turn ?h N g c = Inr (Continue g2)"
          using adv Some lc dq False by (simp add: turn_def Let_def)
        then show ?thesis using pc play_no_input by simp
      qed
      then show ?thesis using False wq len by auto
    qed
  qed
qed

text \<open>
  The rule of the game where the buffer has room. \<open>g\<close> is any state the loop reaches on a
  loaded word source every word of which is shorter than \<open>MAX_LENGTH\<close>, \<open>c\<close> the alphabetic
  character read, and \<open>play \<dots> g [c]\<close> the program's answer to that one read: it is
  \<open>GameOver p w\<close> if and only if the letters typed so far followed by \<open>tolower c\<close> are a
  loaded word longer than three letters, \<open>p\<close> is the current player and \<open>w\<close> is that word.
  For the dictionary of "cat" and "cats" the program still prompts after c, a, t, and
  c, a, t, s ends the game with the player who typed the fourth letter as loser: player 4
  of five, player 2 of two.
\<close>

lemma game_over_rule:
  "(word_source src \<and> load lim (Some src) init = Inr (True, s) \<and> root s = Some r \<and>
    play (mem s) N (start r) inp = Inr (Awaiting g) \<and> isalpha c \<and>
    (letter_count g + 1 < MAX_LENGTH \<or> (\<forall>W\<in>set (loaded_words src). length W < MAX_LENGTH)) \<longrightarrow>
      (play (mem s) N g [c] = Inr (GameOver p w) \<longleftrightarrow>
         stored g @ [tolower c] \<in> set (loaded_words src) \<and>
         MIN_LENGTH < length (stored g @ [tolower c]) \<and>
         p = curr_player g \<and> w = stored g @ [tolower c])) \<and>
   loaded_words cat_src = [''cat'', ''cats''] \<and>
   load 10 (Some cat_src) init = Inr (True, cat_prog) \<and>
   to_move (mem cat_prog) 5 0 ''cat'' = Some 4 \<and>
   play (mem cat_prog) 5 (start 0) ''cats'' = Inr (GameOver 4 ''cats'') \<and>
   to_move (mem cat_prog) 2 0 ''cat'' = Some 2 \<and>
   play (mem cat_prog) 2 (start 0) ''cats'' = Inr (GameOver 2 ''cats'')"
proof -
  have "loaded_words cat_src = [''cat'', ''cats'']" by code_simp
  moreover have "to_move (mem cat_prog) 5 0 ''cat'' = Some 4" by code_simp
  moreover have "play (mem cat_prog) 5 (start 0) ''cats'' = Inr (GameOver 4 ''cats'')" by code_simp
  moreover have "to_move (mem cat_prog) 2 0 ''cat'' = Some 2" by code_simp
  moreover have "play (mem cat_prog) 2 (start 0) ''cats'' = Inr (GameOver 2 ''cats'')" by code_simp
  ultimately show ?thesis using game_over_iff [of src g lim s r N inp c p w] cat_load by blast
qed

lemma cat_fits: "\<forall>W\<in>set (loaded_words cat_src). length W < MAX_LENGTH"
  by code_simp

lemma game_over_rule_at_cats:
  "word_source cat_src \<and> load 10 (Some cat_src) init = Inr (True, cat_prog) \<and>
   root cat_prog = Some 0 \<and>
   play (mem cat_prog) 3 (start 0) ''cat'' =
     Inr (Awaiting \<lparr>curr_player = 1, letter_count = 3,
                     fragment = ''cat'' @ replicate 42 NUL, letter = 3\<rparr>) \<and>
   isalpha CHR ''S'' \<and>
   (play (mem cat_prog) 3
      \<lparr>curr_player = 1, letter_count = 3, fragment = ''cat'' @ replicate 42 NUL, letter = 3\<rparr>
      ''S'' = Inr (GameOver 1 ''cats'')) =
   (stored \<lparr>curr_player = 1, letter_count = 3, fragment = ''cat'' @ replicate 42 NUL, letter = 3\<rparr> @
       [tolower CHR ''S''] \<in> set (loaded_words cat_src) \<and>
    MIN_LENGTH < length (stored \<lparr>curr_player = 1, letter_count = 3,
                                  fragment = ''cat'' @ replicate 42 NUL, letter = 3\<rparr> @
                         [tolower CHR ''S'']) \<and>
    1 = curr_player \<lparr>curr_player = 1, letter_count = 3,
                      fragment = ''cat'' @ replicate 42 NUL, letter = 3\<rparr> \<and>
    ''cats'' = stored \<lparr>curr_player = 1, letter_count = 3,
                        fragment = ''cat'' @ replicate 42 NUL, letter = 3\<rparr> @ [tolower CHR ''S''])"
proof -
  have p: "play (mem cat_prog) 3 (start 0) ''cat'' =
     Inr (Awaiting \<lparr>curr_player = 1, letter_count = 3,
                     fragment = ''cat'' @ replicate 42 NUL, letter = 3\<rparr>)"
    by code_simp
  have a: "isalpha CHR ''S''" by code_simp
  show ?thesis
    using cat_src_source cat_fits cat_load cat_root p a
      game_over_rule [of cat_src 10 cat_prog 0 3 "''cat''"
        "\<lparr>curr_player = 1, letter_count = 3, fragment = ''cat'' @ replicate 42 NUL, letter = 3\<rparr>"
        "CHR ''S''" 1 "''cats''"]
    by blast
qed


text \<open>
  Claim C3, amended. \<open>load\<close> has returned true and the last line of what it has read of the
  source, \<open>read_part src\<close>, ends with a newline; a loaded word is a line of it. (What \<open>load\<close>
  reads of a source of alphabetic characters and newlines is the whole source.) From the
  node \<open>p\<close> that matching a fragment \<open>f\<close> from the root reaches, \<open>advance\<close> with a lower-case
  letter \<open>c\<close> returns a child exactly when some loaded word has \<open>f @ [c]\<close> as a prefix, and
  \<open>None\<close> exactly when none has. Consequently every non-empty string \<open>P\<close> of lower-case
  letters that is a prefix of no loaded word splits as \<open>f @ c # rest\<close> where \<open>f\<close> is matched
  from the root, \<open>advance\<close> returns \<open>None\<close> for \<open>c\<close> (the first diverging character: no
  loaded word has \<open>f @ [c]\<close> as a prefix), and the walk of \<open>P\<close> yields \<open>None\<close>.
\<close>

theorem advance_matches_prefixes:
  "(load lim (Some src) init = Inr (True, s) \<and> root s = Some r \<and>
    tail_from [] (read_part src) = [] \<and>
    walk (mem s) r f = Inr (Some p) \<and> islower c \<longrightarrow>
      ((\<exists>q. advance (mem s) p c = Inr (Some q)) \<longleftrightarrow>
         (\<exists>W\<in>set (loaded_words (read_part src)). prefix (f @ [c]) W)) \<and>
      (advance (mem s) p c = Inr None \<longleftrightarrow>
         \<not> (\<exists>W\<in>set (loaded_words (read_part src)). prefix (f @ [c]) W))) \<and>
   (load lim (Some src) init = Inr (True, s) \<and> root s = Some r \<and>
    tail_from [] (read_part src) = [] \<and>
    P \<noteq> [] \<and> (\<forall>c\<in>set P. islower c) \<and>
    \<not> (\<exists>W\<in>set (loaded_words (read_part src)). prefix P W) \<longrightarrow>
      walk (mem s) r P = Inr None \<and>
      (\<exists>f c rest p. P = f @ c # rest \<and> walk (mem s) r f = Inr (Some p) \<and>
         advance (mem s) p c = Inr None \<and>
         \<not> (\<exists>W\<in>set (loaded_words (read_part src)). prefix (f @ [c]) W))) \<and>
   (word_chars src \<longrightarrow> read_part src = src)"
proof -
  have r0: "r = 0"
    if "load lim (Some src) init = Inr (True, s)" "root s = Some r"
    using load_True_tree [of lim src s] that by simp
  have one: "((\<exists>q. advance (mem s) p c = Inr (Some q)) \<longleftrightarrow>
         (\<exists>W\<in>set (loaded_words (read_part src)). prefix (f @ [c]) W)) \<and>
      (advance (mem s) p c = Inr None \<longleftrightarrow>
         \<not> (\<exists>W\<in>set (loaded_words (read_part src)). prefix (f @ [c]) W))"
    if ld: "load lim (Some src) init = Inr (True, s)" and tl: "tail_from [] (read_part src) = []"
      and wf: "walk (mem s) 0 f = Inr (Some p)" and c: "islower c" for f p c
    using loaded_advance [OF ld tl wf c] by (metis option.distinct(1) sum.inject(2))
  have two: "walk (mem s) 0 P = Inr None \<and>
      (\<exists>f c rest p. P = f @ c # rest \<and> walk (mem s) 0 f = Inr (Some p) \<and>
         advance (mem s) p c = Inr None \<and>
         \<not> (\<exists>W\<in>set (loaded_words (read_part src)). prefix (f @ [c]) W))"
    if ld: "load lim (Some src) init = Inr (True, s)" and tl: "tail_from [] (read_part src) = []"
      and P: "P \<noteq> []" "\<forall>c\<in>set P. islower c"
        "\<not> (\<exists>W\<in>set (loaded_words (read_part src)). prefix P W)"
  proof -
    from loaded_diverges [OF ld tl P] obtain f c rest p
      where w: "walk (mem s) 0 P = Inr None" and d: "P = f @ c # rest"
        "walk (mem s) 0 f = Inr (Some p)" "advance (mem s) p c = Inr None"
      by blast
    have "islower c" using d(1) P(2) by simp
    then have "\<not> (\<exists>W\<in>set (loaded_words (read_part src)). prefix (f @ [c]) W)"
      using one [OF ld tl d(2)] d(3) by simp
    then show ?thesis using w d by blast
  qed
  show ?thesis using r0 one two read_part_word_chars [of src] by blast
qed

theorem advance_matches_prefixes_witness:
  "load 10 (Some cat_src) init = Inr (True, cat_prog) \<and> root cat_prog = Some 0 \<and>
   tail_from [] (read_part cat_src) = [] \<and>
   word_chars cat_src \<and> read_part cat_src = cat_src \<and>
   walk (mem cat_prog) 0 ''ca'' = Inr (Some 2) \<and> islower CHR ''t'' \<and>
   ((\<exists>q. advance (mem cat_prog) 2 CHR ''t'' = Inr (Some q)) \<longleftrightarrow>
      (\<exists>W\<in>set (loaded_words (read_part cat_src)). prefix (''ca'' @ ''t'') W)) \<and>
   ''cab'' \<noteq> [] \<and> list_all islower ''cab'' \<and>
   list_all (\<lambda>W. \<not> prefix ''cab'' W) (loaded_words (read_part cat_src)) \<and>
   walk (mem cat_prog) 0 ''cab'' = Inr None \<and>
   (\<exists>f c rest p. ''cab'' = f @ c # rest \<and> walk (mem cat_prog) 0 f = Inr (Some p) \<and>
      advance (mem cat_prog) p c = Inr None \<and>
      \<not> (\<exists>W\<in>set (loaded_words (read_part cat_src)). prefix (f @ [c]) W))"
proof -
  have tl: "tail_from [] (read_part cat_src) = []" by code_simp
  have w: "walk (mem cat_prog) 0 ''ca'' = Inr (Some 2)" by code_simp
  have l: "islower CHR ''t''" by code_simp
  have a: "list_all islower ''cab''" by code_simp
  have n: "list_all (\<lambda>W. \<not> prefix ''cab'' W) (loaded_words (read_part cat_src))" by code_simp
  have a': "\<forall>c\<in>set ''cab''. islower c" using a by (simp only: list_all_iff)
  have n': "\<not> (\<exists>W\<in>set (loaded_words (read_part cat_src)). prefix ''cab'' W)"
    using n by (simp only: list_all_iff) blast
  note th = advance_matches_prefixes [of 10 cat_src cat_prog 0 "''ca''" 2 "CHR ''t''" "''cab''"]
  have 0: "read_part cat_src = cat_src"
    using th cat_src_chars by blast
  have 1: "(\<exists>q. advance (mem cat_prog) 2 CHR ''t'' = Inr (Some q)) \<longleftrightarrow>
      (\<exists>W\<in>set (loaded_words (read_part cat_src)). prefix (''ca'' @ ''t'') W)"
    using th cat_load cat_root tl w l by blast
  have 2: "walk (mem cat_prog) 0 ''cab'' = Inr None \<and>
   (\<exists>f c rest p. ''cab'' = f @ c # rest \<and> walk (mem cat_prog) 0 f = Inr (Some p) \<and>
      advance (mem cat_prog) p c = Inr None \<and>
      \<not> (\<exists>W\<in>set (loaded_words (read_part cat_src)). prefix (f @ [c]) W))"
    using th cat_load cat_root tl a' n' by blast
  show ?thesis
    using cat_src_chars cat_load cat_root tl 0 w l a n 1 2 by simp
qed

text \<open>
  Claim C3, as stated, fails twice. For the empty string on the empty dictionary: no word
  is loaded, so the empty string is a prefix of no loaded word, yet walking it from the
  root yields the root and not \<open>None\<close>: it has no character to diverge at. And for a source
  whose last line has no newline, "cat", newline, "do": \<open>load\<close> returns true and "cat" is
  the one loaded word (the node of "do" is built but never flagged), so "d" is a prefix of
  no loaded word, yet from the root, reached by matching the empty fragment, \<open>advance\<close>
  returns a child for d and the walk of "do" ends at a node, not at \<open>None\<close>.
\<close>

theorem empty_string_counterexample:
  "word_source [] \<and> set (loaded_words []) = {} \<and>
   load 1 (Some []) init = Inr (True, \<lparr>mem = [Some empty_node], root = Some 0\<rparr>) \<and>
   walk [Some empty_node] 0 [] = Inr (Some 0) \<and> walk [Some empty_node] 0 [] \<noteq> Inr None \<and>
   load 10 (Some do_src) init = Inr (True, do_prog) \<and> root do_prog = Some 0 \<and>
   word_chars do_src \<and> read_part do_src = do_src \<and> tail_from [] do_src = ''do'' \<and>
   loaded_words do_src = [''cat''] \<and> \<not> prefix ''d'' ''cat'' \<and>
   walk (mem do_prog) 0 [] = Inr (Some 0) \<and> islower CHR ''d'' \<and>
   advance (mem do_prog) 0 CHR ''d'' = Inr (Some 4) \<and>
   walk (mem do_prog) 0 ''do'' = Inr (Some 5) \<and> walk (mem do_prog) 0 ''do'' \<noteq> Inr None"
proof -
  have "word_source [] \<and> set (loaded_words []) = {} \<and>
   load 1 (Some []) init = Inr (True, \<lparr>mem = [Some empty_node], root = Some 0\<rparr>) \<and>
   walk [Some empty_node] 0 [] = Inr (Some 0) \<and> walk [Some empty_node] 0 [] \<noteq> Inr None"
    by (simp add: word_source_def word_chars_def loaded_words_def source_words_def load_def init_def
        alloc_node_def)
  moreover have "load 10 (Some do_src) init = Inr (True, do_prog)" by code_simp
  moreover have "root do_prog = Some 0" by code_simp
  moreover have "word_chars do_src" by code_simp
  moreover have "read_part do_src = do_src" by code_simp
  moreover have "tail_from [] do_src = ''do''" by code_simp
  moreover have "loaded_words do_src = [''cat'']" by code_simp
  moreover have "\<not> prefix ''d'' ''cat''" by code_simp
  moreover have "islower CHR ''d''" by code_simp
  moreover have "advance (mem do_prog) 0 CHR ''d'' = Inr (Some 4)" by code_simp
  moreover have "walk (mem do_prog) 0 ''do'' = Inr (Some 5)" by code_simp
  ultimately show ?thesis by simp
qed

text \<open>
  Claim C8. While one node can be allocated, \<open>load\<close> on an empty source returns true and
  leaves the root alone in the heap, each of its 26 child slots \<open>NULL\<close>. And after \<open>load\<close> has
  returned true on any source none of whose words is empty, the root's \<open>is_word\<close> flag is
  false.
\<close>

theorem empty_source_and_root_flag:
  "(0 < lim \<longrightarrow>
      load lim (Some []) init = Inr (True, \<lparr>mem = [Some empty_node], root = Some 0\<rparr>) \<and>
      map (\<lambda>i. child_at [Some empty_node] 0 (int i)) [0..<CHARS] = replicate CHARS (Inr None)) \<and>
   (load lim (Some src) init = Inr (True, s) \<and> [] \<notin> set (loaded_words src) \<longrightarrow>
      (\<exists>r n. root s = Some r \<and> deref (mem s) r = Inr n \<and> \<not> is_word n))"
proof -
  have "load lim (Some []) init = Inr (True, \<lparr>mem = [Some empty_node], root = Some 0\<rparr>)" if "0 < lim"
    using that by (simp add: load_def init_def alloc_node_def)
  moreover have "map (\<lambda>i. child_at [Some empty_node] 0 (int i)) [0..<CHARS] = replicate CHARS (Inr None)"
    by code_simp
  moreover have "\<exists>r n. root s = Some r \<and> deref (mem s) r = Inr n \<and> \<not> is_word n"
    if ld: "load lim (Some src) init = Inr (True, s)"
      and e: "[] \<notin> set (loaded_words src)"
  proof -
    from load_True_tree [OF ld] obtain ps it
      where r0: "root s = Some 0"
        and li: "load_inv (mem s) ps (loaded_words (read_part src))
                   (map tolower (tail_from [] (read_part src))) it"
      by blast
    note t = load_invD(1) [OF li]
    have "[] \<notin> set (loaded_words (read_part src))"
      using e loaded_words_read_part [of src] by blast
    then have "\<not> is_word (the (mem s ! 0))"
      using load_invD(3) [OF li tree_invD(2) [OF t]] tree_invD(3) [OF t] by simp
    then show ?thesis
      using r0 tree_inv_deref [OF t tree_invD(2) [OF t]] by blast
  qed
  ultimately show ?thesis by blast
qed

theorem empty_source_and_root_flag_witness:
  "(0::nat) < 1 \<and>
   load 1 (Some []) init = Inr (True, \<lparr>mem = [Some empty_node], root = Some 0\<rparr>) \<and>
   map (\<lambda>i. child_at [Some empty_node] 0 (int i)) [0..<CHARS] = replicate CHARS (Inr None) \<and>
   load 10 (Some cat_src) init = Inr (True, cat_prog) \<and>
   [] \<notin> set (loaded_words cat_src) \<and>
   (\<exists>r n. root cat_prog = Some r \<and> deref (mem cat_prog) r = Inr n \<and> \<not> is_word n)"
proof -
  have e: "[] \<notin> set (loaded_words cat_src)" by code_simp
  show ?thesis
    using cat_load e
      empty_source_and_root_flag [of 1 cat_src cat_prog]
      empty_source_and_root_flag [of 10 cat_src cat_prog]
    by simp
qed

subsection \<open>Teardown\<close>

lemma below_less: "q \<in> below ps p i \<Longrightarrow> q < length ps"
  by (simp add: below_def)

lemma not_prefix_longer: "\<not> prefix (v @ [y] @ w) v"
proof
  assume "prefix (v @ [y] @ w) v"
  then have "length (v @ [y] @ w) \<le> length v" by (rule prefix_length_le)
  then show False by simp
qed

lemma below_self: "p \<notin> below ps p i"
  using not_prefix_longer [of "ps ! p" _ "[]"] by (simp add: below_def)

lemma ex_from_split:
  "(\<exists>j. i \<le> j \<and> j < n \<and> Q j) \<longleftrightarrow> (i < n \<and> Q i) \<or> (\<exists>j. Suc i \<le> j \<and> j < n \<and> Q j)"
  for Q :: "nat \<Rightarrow> bool"
proof
  assume "\<exists>j. i \<le> j \<and> j < n \<and> Q j"
  then obtain j where j: "i \<le> j" "j < n" "Q j" by blast
  show "(i < n \<and> Q i) \<or> (\<exists>j. Suc i \<le> j \<and> j < n \<and> Q j)"
  proof (cases "j = i")
    case True then show ?thesis using j by simp
  next
    case False
    then have "Suc i \<le> j" using j(1) by simp
    then show ?thesis using j by blast
  qed
next
  assume "(i < n \<and> Q i) \<or> (\<exists>j. Suc i \<le> j \<and> j < n \<and> Q j)"
  then show "\<exists>j. i \<le> j \<and> j < n \<and> Q j"
    using Suc_leD by blast
qed

lemma below_Suc:
  "below ps p i = {q. q < length ps \<and> i < CHARS \<and> prefix (ps ! p @ [ltr i]) (ps ! q)} \<union> below ps p (Suc i)"
proof (rule set_eqI)
  fix q
  show "q \<in> below ps p i \<longleftrightarrow>
    q \<in> {q. q < length ps \<and> i < CHARS \<and> prefix (ps ! p @ [ltr i]) (ps ! q)} \<union> below ps p (Suc i)"
    using ex_from_split [of i CHARS "\<lambda>j. prefix (ps ! p @ [ltr j]) (ps ! q)"]
    by (simp add: below_def) blast
qed

lemma below_end: "below ps p CHARS = {}"
  by (auto simp: below_def)

lemma below_none:
  assumes t: "tree_inv h ps" and p: "p < length h" and i: "i < CHARS" and k: "kids h p ! i = None"
  shows "below ps p i = below ps p (Suc i)"
proof -
  have "\<not> prefix (ps ! p @ [ltr i]) (ps ! q)" if "q < length ps" for q
  proof
    assume "prefix (ps ! p @ [ltr i]) (ps ! q)"
    then obtain w where "ps ! q = (ps ! p @ [ltr i]) @ w" by (auto simp: prefix_def)
    then have "(ps ! p @ [ltr i]) @ w \<in> set ps" using that by (metis nth_mem)
    then have "ps ! p @ [ltr i] \<in> set ps" using tree_inv_prefix [OF t] by blast
    then show False using tree_invD(8) [OF t p i k] by simp
  qed
  then show ?thesis using below_Suc [of ps p i] by auto
qed

lemma prefix_snoc_cases:
  "prefix w x \<longleftrightarrow> x = w \<or> (\<exists>y. prefix (w @ [y]) x)"
proof
  assume "prefix w x"
  then obtain z where z: "x = w @ z" by (auto simp: prefix_def)
  show "x = w \<or> (\<exists>y. prefix (w @ [y]) x)"
  proof (cases z)
    case Nil then show ?thesis using z by simp
  next
    case (Cons y ys) then show ?thesis using z by (auto simp: prefix_def)
  qed
next
  assume "x = w \<or> (\<exists>y. prefix (w @ [y]) x)"
  then show "prefix w x" by (auto dest: append_prefixD)
qed

lemma below_some:
  assumes t: "tree_inv h ps" and p: "p < length h" and i: "i < CHARS" and k: "kids h p ! i = Some c"
  shows "below ps p i = insert c (below ps c 0 \<union> below ps p (Suc i))"
    and "c \<notin> below ps c 0" and "c \<notin> below ps p (Suc i)"
    and "below ps c 0 \<inter> below ps p (Suc i) = {}"
    and "p \<notin> below ps c 0" and "p \<noteq> c"
proof -
  note lp = tree_invD(1) [OF t]
  have c: "p < c" "c < length h" "ps ! c = ps ! p @ [ltr i]"
    using tree_invD(7) [OF t p i k] by simp_all
  have sub: "prefix (ps ! c) (ps ! q) \<longleftrightarrow> q = c \<or> q \<in> below ps c 0" if q: "q < length ps" for q
  proof -
    have "(\<exists>y. prefix (ps ! c @ [y]) (ps ! q)) \<longleftrightarrow> (\<exists>j<CHARS. prefix (ps ! c @ [ltr j]) (ps ! q))"
    proof
      assume "\<exists>y. prefix (ps ! c @ [y]) (ps ! q)"
      then obtain y w where w: "ps ! q = (ps ! c @ [y]) @ w" by (auto simp: prefix_def)
      then have "(ps ! c @ [y]) @ w \<in> set ps" using q by (metis nth_mem)
      then have "ps ! c @ [y] \<in> set ps" using tree_inv_prefix [OF t] by blast
      then have "islower y" using tree_inv_snoc(2) [OF t] by blast
      then obtain j where "j < CHARS" "y = ltr j" using islower_iff_ltr by auto
      then show "\<exists>j<CHARS. prefix (ps ! c @ [ltr j]) (ps ! q)" using w by (auto simp: prefix_def)
    qed blast
    moreover have "ps ! q = ps ! c \<longleftrightarrow> q = c"
      using tree_invD(4) [OF t] q c(2) lp by (simp add: nth_eq_iff_index_eq)
    ultimately show ?thesis
      using prefix_snoc_cases [of "ps ! c" "ps ! q"] q by (auto simp: below_def)
  qed
  have "{q. q < length ps \<and> i < CHARS \<and> prefix (ps ! p @ [ltr i]) (ps ! q)} = insert c (below ps c 0)"
  proof (intro set_eqI iffI)
    fix q assume "q \<in> {q. q < length ps \<and> i < CHARS \<and> prefix (ps ! p @ [ltr i]) (ps ! q)}"
    then show "q \<in> insert c (below ps c 0)" using sub [of q] c(3) by simp
  next
    fix q assume q: "q \<in> insert c (below ps c 0)"
    then have "q < length ps" using c(2) lp below_less [of q ps c 0] by auto
    then show "q \<in> {q. q < length ps \<and> i < CHARS \<and> prefix (ps ! p @ [ltr i]) (ps ! q)}"
      using sub [of q] q c(3) i by simp
  qed
  then show "below ps p i = insert c (below ps c 0 \<union> below ps p (Suc i))"
    using below_Suc [of ps p i] by simp
  show "c \<notin> below ps c 0" by (rule below_self)
  have other: "\<not> prefix (ps ! p @ [ltr j]) (ps ! q)"
    if "Suc i \<le> j" "j < CHARS" "prefix (ps ! c) (ps ! q)" for j q
  proof
    assume "prefix (ps ! p @ [ltr j]) (ps ! q)"
    then have "prefix (ps ! p @ [ltr j]) (ps ! p @ [ltr i]) \<or> prefix (ps ! p @ [ltr i]) (ps ! p @ [ltr j])"
      using that(3) c(3) prefix_same_cases by metis
    then have "ltr j = ltr i" by auto
    then show False using ltr_inj [OF that(2) i] that(1) by simp
  qed
  show "c \<notin> below ps p (Suc i)"
    using other [of _ c] by (auto simp: below_def)
  show "below ps c 0 \<inter> below ps p (Suc i) = {}"
  proof -
    have "q \<notin> below ps p (Suc i)" if "q \<in> below ps c 0" for q
    proof -
      have "q < length ps" using that by (simp add: below_def)
      then have "prefix (ps ! c) (ps ! q)" using sub that by simp
      then show ?thesis using other [of _ q] by (auto simp: below_def)
    qed
    then show ?thesis by blast
  qed
  show "p \<notin> below ps c 0"
    using c(3) not_prefix_longer [of "ps ! p" "ltr i"] by (simp add: below_def)
  show "p \<noteq> c" using c(1) by simp
qed

lemma freeLoop_end: "freeLoop m p CHARS = Some (Inr m)"
  by (subst freeLoop.simps) simp

lemma freeLoop_null:
  assumes "i < CHARS" and "child_at (fst m) p (int i) = Inr None"
  shows "freeLoop m p i = freeLoop m p (Suc i)"
  using assms by (subst freeLoop.simps) simp

lemma freeLoop_child:
  assumes "i < CHARS" and "child_at (fst m) p (int i) = Inr (Some c)"
    and "freeLoop m c 0 = Some (Inr m1)"
    and "child_at (fst m1) p (int i) = Inr (Some c)"
    and "free m1 (Some c) = Inr m2"
  shows "freeLoop m p i = freeLoop m2 p (Suc i)"
  using assms by (subst freeLoop.simps) simp

lemma live_child_at:
  assumes t: "tree_inv h0 ps" and p: "p < length h0" and i: "i < CHARS"
    and l: "length h = length h0" and e: "h ! p = h0 ! p"
  shows "child_at h p (int i) = Inr (kids h0 p ! i)"
proof -
  have "deref h p = Inr (the (h0 ! p))"
    using tree_invD(5) [OF t p] p l e by (auto simp: deref_def)
  then show ?thesis
    using tree_invD(6) [OF t p] i by (simp add: child_at_def kids_def)
qed

lemma freeLoop_below:
  assumes t: "tree_inv h0 ps"
  shows "p < length h0 \<Longrightarrow> i \<le> CHARS \<Longrightarrow> length h = length h0 \<Longrightarrow> h ! p = h0 ! p \<Longrightarrow>
         (\<forall>q\<in>below ps p i. h ! q = h0 ! q) \<Longrightarrow>
         \<exists>h' xs. freeLoop (h, log) p i = Some (Inr (h', log @ xs)) \<and> length h' = length h0 \<and>
            (\<forall>q<length h0. h' ! q = (if q \<in> below ps p i then None else h ! q)) \<and>
            distinct xs \<and> set xs = below ps p i"
proof (induction "length h0 - p" arbitrary: p i h log rule: less_induct)
  case less
  note outer = less.hyps
  note p = less.prems(1)
  from less.prems(2-5) show ?case
  proof (induction "CHARS - i" arbitrary: i h log rule: less_induct)
    case inner: less
    note l = inner.prems(2) and e = inner.prems(3) and live = inner.prems(4)
    show ?case
    proof (cases "i = CHARS")
      case True
      then show ?thesis using freeLoop_end [of "(h, log)" p] l by (simp add: below_end)
    next
      case False
      then have i: "i < CHARS" using inner.prems(1) by simp
      note ch = live_child_at [OF t p i l e]
      show ?thesis
      proof (cases "kids h0 p ! i")
        case None
        note eq = below_none [OF t p i None]
        have "\<exists>h' xs. freeLoop (h, log) p (Suc i) = Some (Inr (h', log @ xs)) \<and> length h' = length h0 \<and>
            (\<forall>q<length h0. h' ! q = (if q \<in> below ps p (Suc i) then None else h ! q)) \<and>
            distinct xs \<and> set xs = below ps p (Suc i)"
          using inner.hyps [of "Suc i" h log] i l e live eq by simp
        then show ?thesis
          using freeLoop_null [of i "(h, log)" p] i ch None eq by simp
      next
        case (Some c)
        note b = below_some [OF t p i Some]
        have c: "p < c" "c < length h0"
          using tree_invD(7) [OF t p i Some] by simp_all
        have hc: "h ! c = h0 ! c" using live b(1) by simp
        have livec: "\<forall>q\<in>below ps c 0. h ! q = h0 ! q" using live b(1) by simp
        have dec: "length h0 - c < length h0 - p" using c p by simp
        have "\<exists>h' xs. freeLoop (h, log) c 0 = Some (Inr (h', log @ xs)) \<and> length h' = length h0 \<and>
            (\<forall>q<length h0. h' ! q = (if q \<in> below ps c 0 then None else h ! q)) \<and>
            distinct xs \<and> set xs = below ps c 0"
          using outer [of c 0 h log] dec c(2) l hc livec by simp
        then obtain h1 xs1 where 1: "freeLoop (h, log) c 0 = Some (Inr (h1, log @ xs1))"
          "length h1 = length h0"
          "\<And>q. q < length h0 \<Longrightarrow> h1 ! q = (if q \<in> below ps c 0 then None else h ! q)"
          "distinct xs1" "set xs1 = below ps c 0"
          by auto
        have h1p: "h1 ! p = h0 ! p" using 1(3) [OF p] b(5) e by simp
        have ch1: "child_at h1 p (int i) = Inr (Some c)"
          using live_child_at [OF t p i 1(2) h1p] Some by simp
        have h1c: "h1 ! c = h0 ! c" using 1(3) [OF c(2)] b(2) hc by simp
        let ?h2 = "h1[c := None]"
        have fr: "free (h1, log @ xs1) (Some c) = Inr (?h2, (log @ xs1) @ [c])"
          using h1c tree_invD(5) [OF t c(2)] c(2) 1(2) by (simp add: free_def)
        have step: "freeLoop (h, log) p i = freeLoop (?h2, (log @ xs1) @ [c]) p (Suc i)"
          using freeLoop_child [of i "(h, log)" p c "(h1, log @ xs1)" "(?h2, (log @ xs1) @ [c])"]
            i ch Some 1(1) ch1 fr by simp
        have l2: "length ?h2 = length h0" using 1(2) by simp
        have h2p: "?h2 ! p = h0 ! p" using h1p b(6) by simp
        have live2: "\<forall>q\<in>below ps p (Suc i). ?h2 ! q = h0 ! q"
        proof
          fix q assume q: "q \<in> below ps p (Suc i)"
          then have ql: "q < length h0" using below_less [OF q] tree_invD(1) [OF t] by simp
          have "q \<noteq> c" "q \<notin> below ps c 0" using q b(3,4) by auto
          then have "?h2 ! q = h ! q" using 1(3) [OF ql] by simp
          then show "?h2 ! q = h0 ! q" using live q b(1) by simp
        qed
        have "\<exists>h' xs. freeLoop (?h2, (log @ xs1) @ [c]) p (Suc i) = Some (Inr (h', ((log @ xs1) @ [c]) @ xs)) \<and>
            length h' = length h0 \<and>
            (\<forall>q<length h0. h' ! q = (if q \<in> below ps p (Suc i) then None else ?h2 ! q)) \<and>
            distinct xs \<and> set xs = below ps p (Suc i)"
          using inner.hyps [of "Suc i" ?h2 "(log @ xs1) @ [c]"] i l2 h2p live2 by simp
        then obtain h3 xs3 where 3: "freeLoop (?h2, (log @ xs1) @ [c]) p (Suc i) = Some (Inr (h3, ((log @ xs1) @ [c]) @ xs3))"
          "length h3 = length h0"
          "\<And>q. q < length h0 \<Longrightarrow> h3 ! q = (if q \<in> below ps p (Suc i) then None else ?h2 ! q)"
          "distinct xs3" "set xs3 = below ps p (Suc i)"
          by auto
        let ?xs = "xs1 @ [c] @ xs3"
        have "freeLoop (h, log) p i = Some (Inr (h3, log @ ?xs))"
          using step 3(1) by simp
        moreover have "distinct ?xs"
          using 1(4,5) 3(4,5) b(2,3,4) by auto
        moreover have "set ?xs = below ps p i"
          using 1(5) 3(5) b(1) by auto
        moreover have "h3 ! q = (if q \<in> below ps p i then None else h ! q)" if q: "q < length h0" for q
        proof (cases "q = c")
          case True
          then show ?thesis using 3(3) [OF q] b(1) q 1(2) by simp
        next
          case False
          then show ?thesis using 3(3) [OF q] 1(3) [OF q] b(1) by simp
        qed
        ultimately show ?thesis using 3(2) by blast
      qed
    qed
  qed
qed

lemma below_walks:
  assumes t: "tree_inv h ps" and p: "p < length h"
  shows "below ps p 0 = {q. \<exists>w. w \<noteq> [] \<and> walk h p w = Inr (Some q)}"
proof (intro set_eqI iffI)
  fix q assume q: "q \<in> below ps p 0"
  then obtain j where j: "j < CHARS" "prefix (ps ! p @ [ltr j]) (ps ! q)"
    unfolding below_def by blast
  from j(2) obtain w where "ps ! q = (ps ! p @ [ltr j]) @ w"
    unfolding prefix_def by blast
  then have e: "ps ! q = ps ! p @ (ltr j # w)" by simp
  have "q < length h" using below_less [OF q] tree_invD(1) [OF t] by simp
  then have "walk h p (ltr j # w) = Inr (Some q)"
    using walk_in [OF t p _ e] by simp
  moreover have "ltr j # w \<noteq> []" by simp
  ultimately show "q \<in> {q. \<exists>w. w \<noteq> [] \<and> walk h p w = Inr (Some q)}" by blast
next
  fix q assume "q \<in> {q. \<exists>w. w \<noteq> [] \<and> walk h p w = Inr (Some q)}"
  then obtain v where v: "v \<noteq> []" "walk h p v = Inr (Some q)" by blast
  then obtain c w where cw: "v = c # w" by (cases v) simp_all
  have q: "q < length h" "ps ! q = ps ! p @ c # w"
    using walk_Some [OF t p v(2)] cw by simp_all
  have "ps ! q \<in> set ps"
    using q(1) tree_invD(1) [OF t] by simp
  then have "(ps ! p @ [c]) @ w \<in> set ps" using q(2) by simp
  then have "ps ! p @ [c] \<in> set ps" by (rule tree_inv_prefix [OF t])
  then have "islower c" by (rule tree_inv_snoc(2) [OF t])
  then obtain j where j: "j < CHARS" "c = ltr j" using islower_iff_ltr by auto
  have "ps ! q = (ps ! p @ [ltr j]) @ w" using q(2) j(2) by simp
  then have "prefix (ps ! p @ [ltr j]) (ps ! q)" unfolding prefix_def by blast
  then show "q \<in> below ps p 0"
    unfolding below_def using q(1) j(1) tree_invD(1) [OF t] by auto
qed

lemma walks_all:
  assumes t: "tree_inv h ps"
  shows "{q. \<exists>w. walk h 0 w = Inr (Some q)} = {q. q < length h}"
proof (intro set_eqI iffI)
  fix q assume "q \<in> {q. \<exists>w. walk h 0 w = Inr (Some q)}"
  then show "q \<in> {q. q < length h}"
    using walk_Some [OF t tree_invD(2) [OF t]] by blast
next
  fix q assume "q \<in> {q. q < length h}"
  then have "walk h 0 (ps ! q) = Inr (Some q)"
    using walk_in [OF t tree_invD(2) [OF t], of q "ps ! q"] tree_invD(3) [OF t] by simp
  then show "q \<in> {q. \<exists>w. walk h 0 w = Inr (Some q)}" by blast
qed

lemma freeNode_tree:
  assumes t: "tree_inv h ps" and p: "p < length h"
  shows "\<exists>h' xs. freeNode (h, []) (Some p) = Some (Inr (h', xs)) \<and> length h' = length h \<and>
           distinct xs \<and> set xs = {q. \<exists>w. w \<noteq> [] \<and> walk h p w = Inr (Some q)} \<and>
           (\<forall>q<length h. h' ! q = (if q \<in> set xs then None else h ! q))"
proof -
  obtain h' xs where f: "freeLoop (h, []) p 0 = Some (Inr (h', [] @ xs))" "length h' = length h"
      "\<forall>q<length h. h' ! q = (if q \<in> below ps p 0 then None else h ! q)"
      "distinct xs" "set xs = below ps p 0"
    using freeLoop_below [OF t p, of 0 h "[]"] by auto
  show ?thesis
    using f below_walks [OF t p] by (simp add: freeNode_def)
qed

lemma unload_tree:
  assumes t: "tree_inv h ps"
  shows "\<exists>h' freed. unload \<lparr>mem = h, root = Some 0\<rparr> = Some (Inr (True, \<lparr>mem = h', root = Some 0\<rparr>, freed)) \<and>
           length h' = length h \<and> (\<forall>q<length h. h' ! q = None) \<and>
           distinct freed \<and> set freed = {q. q < length h} \<and> last freed = 0"
proof -
  note z = tree_invD(2) [OF t]
  obtain h1 xs where f: "freeNode (h, []) (Some 0) = Some (Inr (h1, xs))" "length h1 = length h"
      "distinct xs" "set xs = {q. \<exists>w. w \<noteq> [] \<and> walk h 0 w = Inr (Some q)}"
      "\<forall>q<length h. h1 ! q = (if q \<in> set xs then None else h ! q)"
    using freeNode_tree [OF t z] by blast
  have x0: "0 \<notin> set xs"
    using below_self [of 0 ps 0] below_walks [OF t z] f(4) by simp
  have xs: "set xs = {q. 0 < q \<and> q < length h}"
  proof (intro set_eqI iffI)
    fix q assume q: "q \<in> set xs"
    then have "q \<in> below ps 0 0" using below_walks [OF t z] f(4) by simp
    then have "q < length h" using below_less tree_invD(1) [OF t] by fastforce
    moreover have "0 < q" using q x0 by (cases "q = 0") simp_all
    ultimately show "q \<in> {q. 0 < q \<and> q < length h}" by simp
  next
    fix q assume "q \<in> {q. 0 < q \<and> q < length h}"
    then have q: "0 < q" "q < length h" by simp_all
    have w: "walk h 0 (ps ! q) = Inr (Some q)"
      using walk_in [OF t z q(2), of "ps ! q"] tree_invD(3) [OF t] by simp
    have "ps ! q \<noteq> []"
      using tree_invD(9) [OF t q(2,1)] by auto
    then show "q \<in> set xs" using w f(4) by blast
  qed
  have live: "h1 ! 0 \<noteq> None"
    using f(5) z x0 tree_invD(5) [OF t z] by simp
  have fr: "free (h1, xs) (Some 0) = Inr (h1[0 := None], xs @ [0])"
    using live z f(2) by (simp add: free_def)
  have u: "unload \<lparr>mem = h, root = Some 0\<rparr> =
      Some (Inr (True, \<lparr>mem = h1[0 := None], root = Some 0\<rparr>, xs @ [0]))"
    using f(1) fr by (simp add: unload_def)
  have n: "(h1[0 := None]) ! q = None" if "q < length h" for q
  proof (cases "q = 0")
    case True then show ?thesis using f(2) that by simp
  next
    case False
    then have "q \<in> set xs" using xs that by simp
    then show ?thesis using f(5) that False by simp
  qed
  have "set (xs @ [0]) = {q. q < length h}"
    using xs z by auto
  then show ?thesis
    using u n f(2,3) x0 by (intro exI [of _ "h1[0 := None]"] exI [of _ "xs @ [0]"]) simp
qed

lemma unload_loaded:
  assumes "load lim (Some src) init = Inr (True, s)"
  shows "\<exists>s' freed. unload s = Some (Inr (True, s', freed))"
proof -
  from load_True_tree [OF assms] obtain ps it
    where r0: "root s = Some 0"
      and li: "load_inv (mem s) ps (loaded_words (read_part src))
                 (map tolower (tail_from [] (read_part src))) it"
    by blast
  have s: "s = \<lparr>mem = mem s, root = Some 0\<rparr>" using r0 by simp
  show ?thesis
    using unload_tree [OF load_invD(1) [OF li]] s by metis
qed

text \<open>
  Claim C7. On the heap a successful \<open>load\<close> leaves, where every node is live,
  \<open>freeNode\<close> of any node \<open>p\<close> returns, having freed the proper descendants of \<open>p\<close> (the nodes
  a non-empty walk from \<open>p\<close> reaches), each once, and nothing else. \<open>unload\<close> returns
  true, having freed every node reachable from the root, the root last, each once: the
  addresses freed are distinct, they are all the addresses allocated, and no cell of the
  heap is live afterwards.
\<close>

theorem unload_frees_all:
  assumes "load lim (Some src) init = Inr (True, s)"
  shows "\<exists>r. root s = Some r \<and> (\<forall>q<length (mem s). mem s ! q \<noteq> None) \<and>
     (\<forall>p<length (mem s). \<exists>h' xs.
        freeNode (mem s, []) (Some p) = Some (Inr (h', xs)) \<and> distinct xs \<and>
        set xs = {q. \<exists>w. w \<noteq> [] \<and> walk (mem s) p w = Inr (Some q)} \<and>
        length h' = length (mem s) \<and>
        (\<forall>q<length (mem s). h' ! q = (if q \<in> set xs then None else mem s ! q))) \<and>
     (\<exists>s' freed.
        unload s = Some (Inr (True, s', freed)) \<and> distinct freed \<and>
        set freed = {q. \<exists>w. walk (mem s) r w = Inr (Some q)} \<and>
        set freed = {q. q < length (mem s)} \<and> last freed = r \<and>
        length (mem s') = length (mem s) \<and> (\<forall>q<length (mem s'). mem s' ! q = None))"
proof -
  from load_True_tree [OF assms] obtain ps it
    where r0: "root s = Some 0"
      and li: "load_inv (mem s) ps (loaded_words (read_part src))
                 (map tolower (tail_from [] (read_part src))) it"
    by blast
  note t = load_invD(1) [OF li]
  have s: "s = \<lparr>mem = mem s, root = Some 0\<rparr>" using r0 by simp
  have live: "\<forall>q<length (mem s). mem s ! q \<noteq> None"
    using tree_invD(5) [OF t] by blast
  have node: "\<forall>p<length (mem s). \<exists>h' xs.
        freeNode (mem s, []) (Some p) = Some (Inr (h', xs)) \<and> distinct xs \<and>
        set xs = {q. \<exists>w. w \<noteq> [] \<and> walk (mem s) p w = Inr (Some q)} \<and>
        length h' = length (mem s) \<and>
        (\<forall>q<length (mem s). h' ! q = (if q \<in> set xs then None else mem s ! q))"
    using freeNode_tree [OF t] by blast
  obtain h' freed where u: "unload \<lparr>mem = mem s, root = Some 0\<rparr> =
        Some (Inr (True, \<lparr>mem = h', root = Some 0\<rparr>, freed))"
      "length h' = length (mem s)" "\<forall>q<length (mem s). h' ! q = None"
      "distinct freed" "set freed = {q. q < length (mem s)}" "last freed = 0"
    using unload_tree [OF t] by blast
  have "\<exists>s' freed.
        unload s = Some (Inr (True, s', freed)) \<and> distinct freed \<and>
        set freed = {q. \<exists>w. walk (mem s) 0 w = Inr (Some q)} \<and>
        set freed = {q. q < length (mem s)} \<and> last freed = 0 \<and>
        length (mem s') = length (mem s) \<and> (\<forall>q<length (mem s'). mem s' ! q = None)"
    using u s walks_all [OF t]
    by (intro exI [of _ "\<lparr>mem = h', root = Some 0\<rparr>"] exI [of _ freed]) simp
  then show ?thesis using r0 live node by blast
qed

theorem unload_frees_all_witness:
  "load 10 (Some cat_src) init = Inr (True, cat_prog) \<and>
   (\<exists>r. root cat_prog = Some r \<and> (\<forall>q<length (mem cat_prog). mem cat_prog ! q \<noteq> None) \<and>
     (\<forall>p<length (mem cat_prog). \<exists>h' xs.
        freeNode (mem cat_prog, []) (Some p) = Some (Inr (h', xs)) \<and> distinct xs \<and>
        set xs = {q. \<exists>w. w \<noteq> [] \<and> walk (mem cat_prog) p w = Inr (Some q)} \<and>
        length h' = length (mem cat_prog) \<and>
        (\<forall>q<length (mem cat_prog). h' ! q = (if q \<in> set xs then None else mem cat_prog ! q))) \<and>
     (\<exists>s' freed.
        unload cat_prog = Some (Inr (True, s', freed)) \<and> distinct freed \<and>
        set freed = {q. \<exists>w. walk (mem cat_prog) r w = Inr (Some q)} \<and>
        set freed = {q. q < length (mem cat_prog)} \<and> last freed = r \<and>
        length (mem s') = length (mem cat_prog) \<and> (\<forall>q<length (mem s'). mem s' ! q = None)))"
  by (intro conjI cat_load unload_frees_all [OF cat_load])

subsection \<open>Exit codes\<close>

lemma unload_True:
  assumes "unload s = Some (Inr (b, x))"
  shows "b"
  using assms unfolding unload_def
  by (auto split: Option.bind_splits sum.splits)

lemma load_loop_False:
  "load_loop lim h r it cs = Inr (False, h') \<Longrightarrow> lim \<le> length h'"
proof (induction cs arbitrary: h it)
  case Nil
  then show ?case by simp
next
  case (Cons c cs)
  show ?case
  proof (cases "c = CHR 0xFF")
    case True
    then show ?thesis using Cons.prems by simp
  next
    case ff: False
    show ?thesis
    proof (cases "tolower c = NL")
      case True
      then show ?thesis
        using Cons.prems ff Cons.IH by (auto split: sum.splits)
    next
      case nl: False
      show ?thesis
      proof (cases "child_at h it (index_of (tolower c))")
        case (Inl f)
        then show ?thesis using Cons.prems ff nl by simp
      next
        case (Inr k)
        show ?thesis
        proof (cases k)
          case (Some q)
          then show ?thesis using Cons.prems ff nl Inr Cons.IH by simp
        next
          case None
          show ?thesis
          proof (cases "length h < lim")
            case True
            then show ?thesis
              using Cons.prems ff nl Inr None Cons.IH
              by (auto simp: alloc_node_def split: sum.splits)
          next
            case False
            then show ?thesis
              using Cons.prems ff nl Inr None by (simp add: alloc_node_def)
          qed
        qed
      qed
    qed
  qed
qed

lemma load_False:
  assumes "load lim d init = Inr (False, s)"
  shows "d = None \<or> lim \<le> length (mem s)"
proof (cases d)
  case None
  then show ?thesis by simp
next
  case (Some src)
  show ?thesis
  proof (cases "0 < lim")
    case True
    then obtain h' where "load_loop lim [Some empty_node] 0 0 src = Inr (False, h')" "mem s = h'"
      using assms Some by (auto simp: load_def init_def alloc_node_def split: sum.splits)
    then show ?thesis using load_loop_False by simp
  next
    case False
    then show ?thesis by simp
  qed
qed

lemma digits_val_none: "\<forall>c\<in>set r. \<not> isdigit c \<Longrightarrow> digits_val acc r = acc"
  by (cases r) simp_all

lemma atoi_no_digit:
  assumes "\<forall>c\<in>set a. \<not> isdigit c"
  shows "atoi a = Inr 0"
proof -
  define t where "t = dropWhile isspace a"
  have t: "\<forall>c\<in>set t. \<not> isdigit c"
    unfolding t_def using assms set_dropWhileD by fast
  have v: "(case t of [] \<Rightarrow> 0
            | c # r \<Rightarrow> if c = CHR ''-'' then - digits_val 0 r
                       else if c = CHR ''+'' then digits_val 0 r
                       else digits_val 0 t) = (0::int)"
  proof (cases t)
    case Nil
    then show ?thesis by simp
  next
    case (Cons c r)
    then have "\<forall>c\<in>set r. \<not> isdigit c" using t by simp
    then have r: "digits_val 0 r = 0" by (rule digits_val_none)
    have "digits_val 0 t = 0" using t by (rule digits_val_none)
    then show ?thesis using Cons r by simp
  qed
  show ?thesis
    unfolding atoi_def Let_def t_def [symmetric] v by simp
qed

lemma main_not_4: "main argv d lim inp \<noteq> Some (Inr (Exit 4))"
proof
  assume m: "main argv d lim inp = Some (Inr (Exit 4))"
  then obtain N where N: "atoi (argv ! 1) = Inr N"
    unfolding main_def by (auto split: if_splits sum.splits)
  from m N obtain s where s: "load lim d init = Inr (True, s)"
    unfolding main_def by (auto split: if_splits sum.splits)
  from m N s obtain r where r: "root s = Some r"
    unfolding main_def by (auto split: if_splits option.splits)
  from m N s r obtain p w where "play (mem s) N (start r) inp = Inr (GameOver p w)"
    unfolding main_def by (auto split: if_splits sum.splits outcome.splits)
  with m N s r obtain x where "unload s = Some (Inr (False, x))"
    unfolding main_def finish_def by (auto split: if_splits sum.splits Option.bind_splits)
  then show False using unload_True by blast
qed

text \<open>
  Claim C6, amended. The exit code is 1 when the argument count is not 2; 2 when the
  value \<open>atoi\<close> reads from the argument is below 2, and that value is 0 for every argument
  without a digit; 3 when \<open>load\<close> returns false, which it does when the dictionary cannot
  be opened and otherwise only when an allocation has failed; 0 when the game on a loaded
  dictionary is over and \<open>unload\<close> has returned true, as it does after a load; and in
  general, once the game is over, \<open>finish\<close> of what \<open>unload\<close> returned: 4 for false, 0 for
  true.
\<close>

theorem exit_codes:
  "(length argv \<noteq> 2 \<longrightarrow> main argv d lim inp = Some (Inr (Exit 1))) \<and>
   (length argv = 2 \<and> atoi (argv ! 1) = Inr N \<and> N < 2 \<longrightarrow>
      main argv d lim inp = Some (Inr (Exit 2))) \<and>
   ((\<forall>c\<in>set a. \<not> isdigit c) \<longrightarrow> atoi a = Inr 0) \<and>
   (length argv = 2 \<and> atoi (argv ! 1) = Inr N \<and> 2 \<le> N \<and> load lim d init = Inr (False, s) \<longrightarrow>
      main argv d lim inp = Some (Inr (Exit 3)) \<and> (d = None \<or> lim \<le> length (mem s))) \<and>
   load lim None init = Inr (False, init) \<and>
   (length argv = 2 \<and> atoi (argv ! 1) = Inr N \<and> 2 \<le> N \<and>
    load lim (Some src) init = Inr (True, s) \<and> root s = Some r \<and>
    play (mem s) N (start r) inp = Inr (GameOver p w) \<longrightarrow>
      main argv (Some src) lim inp = Some (Inr (Exit 0))) \<and>
   (length argv = 2 \<and> atoi (argv ! 1) = Inr N \<and> 2 \<le> N \<and>
    load lim d init = Inr (True, s) \<and> root s = Some r \<and>
    play (mem s) N (start r) inp = Inr (GameOver p w) \<and>
    unload s = Some (Inr (unloaded, s', freed)) \<longrightarrow>
      main argv d lim inp = Some (Inr (finish unloaded))) \<and>
   finish False = Exit 4 \<and> finish True = Exit 0"
proof -
  have 1: "main argv d lim inp = Some (Inr (Exit 1))" if "length argv \<noteq> 2"
    using that by (simp add: main_def)
  have 2: "main argv d lim inp = Some (Inr (Exit 2))"
    if "length argv = 2" "atoi (argv ! 1) = Inr N" "N < 2"
    using that by (simp add: main_def)
  have 3: "main argv d lim inp = Some (Inr (Exit 3)) \<and> (d = None \<or> lim \<le> length (mem s))"
    if "length argv = 2" "atoi (argv ! 1) = Inr N" "2 \<le> N" "load lim d init = Inr (False, s)"
    using that load_False [OF that(4)] by (simp add: main_def)
  have 4: "load lim None init = Inr (False, init)"
    by (simp add: load_def)
  have 5: "main argv d lim inp = Some (Inr (finish unloaded))"
    if "length argv = 2" "atoi (argv ! 1) = Inr N" "2 \<le> N"
      "load lim d init = Inr (True, s)" "root s = Some r"
      "play (mem s) N (start r) inp = Inr (GameOver p w)"
      "unload s = Some (Inr (unloaded, s', freed))" for d unloaded s' freed
    using that by (simp add: main_def)
  have 0: "main argv (Some src) lim inp = Some (Inr (Exit 0))"
    if a: "length argv = 2" "atoi (argv ! 1) = Inr N" "2 \<le> N"
      and ld: "load lim (Some src) init = Inr (True, s)" and r: "root s = Some r"
      and g: "play (mem s) N (start r) inp = Inr (GameOver p w)"
  proof -
    obtain s1 f1 where "unload s = Some (Inr (True, s1, f1))"
      using unload_loaded [OF ld] by blast
    then show ?thesis using 5 [OF a ld r g] by (simp add: finish_def)
  qed
  have 6: "finish False = Exit 4 \<and> finish True = Exit 0"
    by (simp add: finish_def)
  show ?thesis
    using 1 2 3 4 0 5 [of d unloaded s' freed] 6 atoi_no_digit [of a] by blast
qed

theorem exit_codes_witness:
  "length [''ghost''] \<noteq> 2 \<and> main [''ghost''] None 10 [] = Some (Inr (Exit 1)) \<and>
   length [''ghost'', ''one''] = 2 \<and> atoi ([''ghost'', ''one''] ! 1) = Inr 0 \<and> (0::int) < 2 \<and>
   main [''ghost'', ''one''] None 10 [] = Some (Inr (Exit 2)) \<and>
   list_all (\<lambda>c. \<not> isdigit c) ''one'' \<and>
   length [''ghost'', ''3''] = 2 \<and> atoi ([''ghost'', ''3''] ! 1) = Inr 3 \<and> (2::int) \<le> 3 \<and>
   load 3 (Some cat_src) init = Inr (False, cat_partial) \<and>
   main [''ghost'', ''3''] (Some cat_src) 3 ''cats'' = Some (Inr (Exit 3)) \<and>
   load 10 (Some cat_src) init = Inr (True, cat_prog) \<and> root cat_prog = Some 0 \<and>
   play (mem cat_prog) 3 (start 0) ''cats'' = Inr (GameOver 1 ''cats'') \<and>
   main [''ghost'', ''3''] (Some cat_src) 10 ''cats'' = Some (Inr (Exit 0)) \<and>
   unload cat_prog = Some (Inr (True, \<lparr>mem = replicate 5 None, root = Some 0\<rparr>, [4, 3, 2, 1, 0])) \<and>
   main [''ghost'', ''3''] (Some cat_src) 10 ''cats'' = Some (Inr (finish True))"
proof -
  have a2: "list_all (\<lambda>c. \<not> isdigit c) ''one''" by code_simp
  have a0: "atoi ''one'' = Inr 0"
    using exit_codes [where a = "''one''"] a2 by (simp add: list_all_iff)
  have a3: "atoi ([''ghost'', ''3''] ! 1) = Inr 3" by code_simp
  have l3: "load 3 (Some cat_src) init = Inr (False, cat_partial)"
    by code_simp
  have p: "play (mem cat_prog) 3 (start 0) ''cats'' = Inr (GameOver 1 ''cats'')" by code_simp
  have u: "unload cat_prog = Some (Inr (True, \<lparr>mem = replicate 5 None, root = Some 0\<rparr>, [4, 3, 2, 1, 0]))"
    by code_simp
  have e1: "main [''ghost''] None 10 [] = Some (Inr (Exit 1))"
    using exit_codes [of "[''ghost'']" None 10 "[]"] by simp
  have e2: "main [''ghost'', ''one''] None 10 [] = Some (Inr (Exit 2))"
    using exit_codes [where argv = "[''ghost'', ''one'']" and d = None and lim = 10 and inp = "[]" and N = 0]
      a0 by simp
  have e3: "main [''ghost'', ''3''] (Some cat_src) 3 ''cats'' = Some (Inr (Exit 3))"
    using exit_codes [where argv = "[''ghost'', ''3'']" and d = "Some cat_src" and lim = 3
        and inp = "''cats''" and N = 3 and s = cat_partial] a3 l3
    by simp
  note th = exit_codes [where argv = "[''ghost'', ''3'']" and d = "Some cat_src" and lim = 10
        and inp = "''cats''" and N = 3 and s = cat_prog and src = cat_src and r = 0 and p = 1
        and w = "''cats''" and unloaded = True
        and s' = "\<lparr>mem = replicate 5 None, root = Some 0\<rparr>" and freed = "[4, 3, 2, 1, 0]"]
  have e0: "main [''ghost'', ''3''] (Some cat_src) 10 ''cats'' = Some (Inr (Exit 0))"
    using th a3 cat_load cat_root p by simp
  have e5: "main [''ghost'', ''3''] (Some cat_src) 10 ''cats'' = Some (Inr (finish True))"
    using th a3 cat_load cat_root p u by simp
  show ?thesis
    using a0 a2 a3 l3 p u e1 e2 e3 e0 e5 cat_load cat_root by simp
qed

text \<open>
  Claim C6, as stated, fails. A dictionary that cannot be opened and an allocation that
  fails (here the fourth, with room for three nodes) are two error categories with one
  exit code, 3. And the argument "3abc", which is not an integer, is not refused with exit
  code 2: \<open>atoi\<close> reads it as 3 and the game runs to its end.
\<close>

theorem exit_codes_counterexample:
  "load 10 None init = Inr (False, init) \<and>
   main [''ghost'', ''2''] None 10 ''cats'' = Some (Inr (Exit 3)) \<and>
   load 10 (Some cat_src) init = Inr (True, cat_prog) \<and>
   load 3 (Some cat_src) init = Inr (False, cat_partial) \<and>
   alloc_node 3 (mem cat_partial) = None \<and>
   main [''ghost'', ''2''] (Some cat_src) 3 ''cats'' = Some (Inr (Exit 3)) \<and>
   main [''ghost'', ''3abc''] (Some cat_src) 10 ''cats'' = Some (Inr (Exit 0))"
proof -
  have "load 10 None init = Inr (False, init)" by (simp add: load_def)
  moreover have "main [''ghost'', ''2''] None 10 ''cats'' = Some (Inr (Exit 3))" by code_simp
  moreover have "alloc_node 3 (mem cat_partial) = None"
    by code_simp
  moreover have "main [''ghost'', ''2''] (Some cat_src) 3 ''cats'' = Some (Inr (Exit 3))" by code_simp
  moreover have "main [''ghost'', ''3abc''] (Some cat_src) 10 ''cats'' = Some (Inr (Exit 0))" by code_simp
  moreover have "load 3 (Some cat_src) init = Inr (False, cat_partial)" by code_simp
  ultimately show ?thesis using cat_load by simp
qed

lemma cat_unload:
  "unload cat_prog = Some (Inr (True, \<lparr>mem = replicate 5 None, root = Some 0\<rparr>, [4, 3, 2, 1, 0]))"
  by code_simp

end
